theory Spec2Isabelle
  imports Complex_Main
begin

section \<open>Characters and strings of the host language\<close>

text \<open>
  Source text is a list of code units. This development works with the 8-bit code units
  of \<^typ>\<open>char\<close> (the Latin-1 range); all keywords, delimiters and patterns of the program
  are ASCII. The character classes are those of the regular-expression dialect of the
  source language: \<open>\s\<close> (white space and line terminators), \<open>\d\<close> and \<open>\w\<close>.
\<close>

definition is_space :: "char \<Rightarrow> bool" where
  "is_space c = (c \<in> set [CHR 0x09, CHR 0x0A, CHR 0x0B, CHR 0x0C, CHR 0x0D, CHR 0x20, CHR 0xA0])"

definition is_digit :: "char \<Rightarrow> bool" where
  "is_digit c = (c \<in> set ''0123456789'')"

definition is_word :: "char \<Rightarrow> bool" where
  "is_word c = (c \<in> set (''abcdefghijklmnopqrstuvwxyz'' @ ''ABCDEFGHIJKLMNOPQRSTUVWXYZ''
                          @ ''0123456789'' @ ''_''))"

text \<open>
  Letters by their low five bits: \<open>ascii_letter\<close> holds for the offsets 1..26 (A..Z, a..z),
  \<open>latin_letter\<close> for the offsets 0..30 without 23 (the accented letters of Latin-1;
  23 is the multiplication or division sign).
\<close>

definition ascii_letter :: "bool \<Rightarrow> bool \<Rightarrow> bool \<Rightarrow> bool \<Rightarrow> bool \<Rightarrow> bool" where
  "ascii_letter b0 b1 b2 b3 b4 =
     ((\<not> b4 \<and> (b3 \<or> b2 \<or> b1 \<or> b0)) \<or> (b4 \<and> (\<not> b3 \<or> (\<not> b2 \<and> \<not> (b1 \<and> b0)))))"

definition latin_letter :: "bool \<Rightarrow> bool \<Rightarrow> bool \<Rightarrow> bool \<Rightarrow> bool \<Rightarrow> bool" where
  "latin_letter b0 b1 b2 b3 b4 =
     (\<not> (b4 \<and> b3 \<and> b2 \<and> b1 \<and> b0) \<and> \<not> (b4 \<and> \<not> b3 \<and> b2 \<and> b1 \<and> b0))"

text \<open>
  Upper and lower case differ in bit 5 (0x20). The three Latin-1 letters whose upper case
  lies outside Latin-1 or is not a single code unit (0xB5, 0xDF, 0xFF) are left unchanged.
\<close>

fun upper_char :: "char \<Rightarrow> char" where
  "upper_char (Char b0 b1 b2 b3 b4 b5 b6 b7) =
     (if b6 \<and> b5 \<and> ((\<not> b7 \<and> ascii_letter b0 b1 b2 b3 b4) \<or> (b7 \<and> latin_letter b0 b1 b2 b3 b4))
      then Char b0 b1 b2 b3 b4 False b6 b7
      else Char b0 b1 b2 b3 b4 b5 b6 b7)"

fun lower_char :: "char \<Rightarrow> char" where
  "lower_char (Char b0 b1 b2 b3 b4 b5 b6 b7) =
     (if b6 \<and> \<not> b5 \<and> ((\<not> b7 \<and> ascii_letter b0 b1 b2 b3 b4) \<or> (b7 \<and> latin_letter b0 b1 b2 b3 b4))
      then Char b0 b1 b2 b3 b4 True b6 b7
      else Char b0 b1 b2 b3 b4 b5 b6 b7)"

definition toUpperCase :: "string \<Rightarrow> string" where
  "toUpperCase s = map upper_char s"

definition toLowerCase :: "string \<Rightarrow> string" where
  "toLowerCase s = map lower_char s"

definition trim :: "string \<Rightarrow> string" where
  "trim s = rev (dropWhile is_space (rev (dropWhile is_space s)))"

fun startsWith :: "string \<Rightarrow> string \<Rightarrow> bool" where
  "startsWith s [] = True"
| "startsWith [] (p # ps) = False"
| "startsWith (c # cs) (p # ps) = (c = p \<and> startsWith cs ps)"

definition endsWith :: "string \<Rightarrow> string \<Rightarrow> bool" where
  "endsWith s suffix = startsWith (rev s) (rev suffix)"

fun String_includes :: "string \<Rightarrow> string \<Rightarrow> bool" where
  "String_includes [] sub = startsWith [] sub"
| "String_includes (c # cs) sub = (startsWith (c # cs) sub \<or> String_includes cs sub)"

fun String_split :: "char \<Rightarrow> string \<Rightarrow> string list" where
  "String_split sep [] = [[]]"
| "String_split sep (c # cs) =
     (if c = sep then [] # String_split sep cs
      else (case String_split sep cs of [] \<Rightarrow> [[c]] | l # ls \<Rightarrow> (c # l) # ls))"

fun String_join :: "'a list \<Rightarrow> 'a list list \<Rightarrow> 'a list" where
  "String_join sep [] = []"
| "String_join sep [l] = l"
| "String_join sep (l # ls) = l @ sep @ String_join sep ls"

section \<open>Regular expressions\<close>

text \<open>
  The patterns of the program use literals, character classes, alternation, capture
  groups, greedy and lazy repetition of a single character class, an optional character
  class, a lookahead, the word boundary and the start anchor. \<open>Star\<close>, \<open>Lazy\<close> and
  \<open>Opt\<close> are \<open>c*\<close>, \<open>c*?\<close> and \<open>c?\<close> for a character class \<open>c\<close>.
\<close>

datatype cclass = Lit char | OneOf "char list" | NoneOf "char list" | Space | Word | Digit | Any

datatype regex =
    Atom cclass
  | Seq regex regex
  | Alt regex regex
  | Star cclass
  | Lazy cclass
  | Opt cclass
  | Group nat regex
  | Ahead regex
  | WordB
  | Bol
  | Eps

fun in_class :: "bool \<Rightarrow> cclass \<Rightarrow> char \<Rightarrow> bool" where
  "in_class ic (Lit d) c = (if ic then upper_char c = upper_char d else c = d)"
| "in_class ic (OneOf ds) c = (if ic then upper_char c \<in> set (map upper_char ds) else c \<in> set ds)"
| "in_class ic (NoneOf ds) c = (if ic then upper_char c \<notin> set (map upper_char ds) else c \<notin> set ds)"
| "in_class ic Space c = is_space c"
| "in_class ic Word c = is_word c"
| "in_class ic Digit c = is_digit c"
| "in_class ic Any c = True"

type_synonym captures = "(nat \<times> string) list"

text \<open>
  The matcher is a backtracking machine over a stack of what is still to be matched. A
  position is the index \<open>i\<close>, the code unit before it (\<open>pv\<close>) and the text from it on
  (\<open>r\<close>). \<open>Close n i r\<close> ends capture group \<open>n\<close> that was opened at index \<open>i\<close> with
  remaining text \<open>r\<close>. Alternatives are tried left to right, a greedy repetition takes
  the longest run first, a lazy one the shortest.
\<close>

datatype frame = Node regex | Close nat nat string

fun weight :: "regex \<Rightarrow> nat" where
  "weight (Seq a b) = weight a + weight b + 2"
| "weight (Alt a b) = weight a + weight b + 2"
| "weight (Group n a) = weight a + 3"
| "weight (Ahead a) = weight a + 2"
| "weight r = 1"

fun fweight :: "frame \<Rightarrow> nat" where
  "fweight (Node r) = weight r + 1"
| "fweight (Close n i s) = 1"

definition word_before :: "char option \<Rightarrow> bool" where
  "word_before pv = (case pv of None \<Rightarrow> False | Some c \<Rightarrow> is_word c)"

definition word_after :: "string \<Rightarrow> bool" where
  "word_after r = (case r of [] \<Rightarrow> False | c # cs \<Rightarrow> is_word c)"

function run :: "bool \<Rightarrow> frame list \<Rightarrow> nat \<Rightarrow> char option \<Rightarrow> string \<Rightarrow> captures
                 \<Rightarrow> (nat \<times> captures) option" where
  "run ic [] i pv r cs = Some (i, cs)"
| "run ic (Node (Atom a) # ks) i pv r cs =
     (case r of [] \<Rightarrow> None
      | c # r' \<Rightarrow> if in_class ic a c then run ic ks (Suc i) (Some c) r' cs else None)"
| "run ic (Node (Seq a b) # ks) i pv r cs = run ic (Node a # Node b # ks) i pv r cs"
| "run ic (Node (Alt a b) # ks) i pv r cs =
     (case run ic (Node a # ks) i pv r cs of
        Some res \<Rightarrow> Some res
      | None \<Rightarrow> run ic (Node b # ks) i pv r cs)"
| "run ic (Node (Star a) # ks) i pv r cs =
     (case r of [] \<Rightarrow> run ic ks i pv r cs
      | c # r' \<Rightarrow>
          if in_class ic a c then
            (case run ic (Node (Star a) # ks) (Suc i) (Some c) r' cs of
               Some res \<Rightarrow> Some res
             | None \<Rightarrow> run ic ks i pv r cs)
          else run ic ks i pv r cs)"
| "run ic (Node (Lazy a) # ks) i pv r cs =
     (case run ic ks i pv r cs of
        Some res \<Rightarrow> Some res
      | None \<Rightarrow>
         (case r of [] \<Rightarrow> None
          | c # r' \<Rightarrow>
              if in_class ic a c then run ic (Node (Lazy a) # ks) (Suc i) (Some c) r' cs
              else None))"
| "run ic (Node (Opt a) # ks) i pv r cs =
     (case r of [] \<Rightarrow> run ic ks i pv r cs
      | c # r' \<Rightarrow>
          if in_class ic a c then
            (case run ic ks (Suc i) (Some c) r' cs of
               Some res \<Rightarrow> Some res
             | None \<Rightarrow> run ic ks i pv r cs)
          else run ic ks i pv r cs)"
| "run ic (Node (Group n a) # ks) i pv r cs = run ic (Node a # Close n i r # ks) i pv r cs"
| "run ic (Close n i0 r0 # ks) i pv r cs = run ic ks i pv r ((n, take (i - i0) r0) # cs)"
| "run ic (Node (Ahead a) # ks) i pv r cs =
     (case run ic [Node a] i pv r cs of
        None \<Rightarrow> None
      | Some res \<Rightarrow> run ic ks i pv r cs)"
| "run ic (Node WordB # ks) i pv r cs =
     (if word_before pv \<noteq> word_after r then run ic ks i pv r cs else None)"
| "run ic (Node Bol # ks) i pv r cs = (if i = 0 then run ic ks i pv r cs else None)"
| "run ic (Node Eps # ks) i pv r cs = run ic ks i pv r cs"
  by pat_completeness auto
termination
  by (relation "measures [\<lambda>(ic, ks, i, pv, r, cs). sum_list (map fweight ks),
                          \<lambda>(ic, ks, i, pv, r, cs). length r]") auto

text \<open>
  \<open>search\<close> tries the start positions from the given one to the end of the text, in
  order, and returns the first match: its start, its end and its captures.
\<close>

fun search :: "bool \<Rightarrow> regex \<Rightarrow> nat \<Rightarrow> char option \<Rightarrow> string
                 \<Rightarrow> (nat \<times> nat \<times> captures) option" where
  "search ic re i pv [] =
     (case run ic [Node re] i pv [] [] of
        Some (e, cs) \<Rightarrow> Some (i, e, cs)
      | None \<Rightarrow> None)"
| "search ic re i pv (c # r) =
     (case run ic [Node re] i pv (c # r) [] of
        Some (e, cs) \<Rightarrow> Some (i, e, cs)
      | None \<Rightarrow> search ic re (Suc i) (Some c) r)"

text \<open>\<open>seek s n pv\<close> is the position at index \<open>n\<close> of \<open>s\<close>.\<close>

fun seek :: "string \<Rightarrow> nat \<Rightarrow> char option \<Rightarrow> char option \<times> string" where
  "seek s 0 pv = (pv, s)"
| "seek [] (Suc n) pv = (pv, [])"
| "seek (c # s) (Suc n) pv = seek s n (Some c)"

record RegExp =
  source :: regex
  global :: bool
  ignoreCase :: bool

record RegExpMatch =
  index :: nat
  end_index :: nat
  groups :: captures

definition group :: "RegExpMatch \<Rightarrow> nat \<Rightarrow> string option" where
  "group m n = map_of (groups m) n"

text \<open>
  \<open>RegExp_exec re s lastIndex\<close> is one call of \<open>re.exec(s)\<close> (and of \<open>re.test(s)\<close>, which
  is \<open>exec\<close> compared with null) for an expression whose \<open>lastIndex\<close> property holds the
  given value; it returns the match and the new \<open>lastIndex\<close>. A global expression starts
  at \<open>lastIndex\<close>, stores the end of the match there, and resets it to 0 when there is no
  match; an expression without the flag starts at 0 and leaves \<open>lastIndex\<close> alone.
\<close>

definition RegExp_exec :: "RegExp \<Rightarrow> string \<Rightarrow> nat \<Rightarrow> RegExpMatch option \<times> nat" where
  "RegExp_exec re s lastIndex =
     (let start = (if global re then lastIndex else 0) in
      if length s < start then (None, if global re then 0 else lastIndex)
      else
        (case seek s start None of
           (pv, r) \<Rightarrow>
             (case search (ignoreCase re) (source re) start pv r of
                None \<Rightarrow> (None, if global re then 0 else lastIndex)
              | Some (i, e, cs) \<Rightarrow>
                  (Some \<lparr>index = i, end_index = e, groups = cs\<rparr>,
                   if global re then e else lastIndex))))"

definition RegExp_test :: "RegExp \<Rightarrow> string \<Rightarrow> nat \<Rightarrow> bool \<times> nat" where
  "RegExp_test re s lastIndex =
     (case RegExp_exec re s lastIndex of (m, li) \<Rightarrow> (m \<noteq> None, li))"

subsection \<open>Helpers to write patterns\<close>

fun Str :: "string \<Rightarrow> regex" where
  "Str [] = Eps"
| "Str [c] = Atom (Lit c)"
| "Str (c # cs) = Seq (Atom (Lit c)) (Str cs)"

fun Seqs :: "regex list \<Rightarrow> regex" where
  "Seqs [] = Eps"
| "Seqs [r] = r"
| "Seqs (r # rs) = Seq r (Seqs rs)"

fun Alts :: "regex list \<Rightarrow> regex" where
  "Alts [] = Eps"
| "Alts [r] = r"
| "Alts (r # rs) = Alt r (Alts rs)"

definition Plus :: "cclass \<Rightarrow> regex" where
  "Plus a = Seq (Atom a) (Star a)"

subsection \<open>Bounds of a match\<close>

fun minlen :: "regex \<Rightarrow> nat" where
  "minlen (Atom a) = 1"
| "minlen (Seq a b) = minlen a + minlen b"
| "minlen (Alt a b) = min (minlen a) (minlen b)"
| "minlen (Group n a) = minlen a"
| "minlen r = 0"

fun fminlen :: "frame \<Rightarrow> nat" where
  "fminlen (Node r) = minlen r"
| "fminlen (Close n i s) = 0"

fun mandatory :: "regex \<Rightarrow> nat set" where
  "mandatory (Seq a b) = mandatory a \<union> mandatory b"
| "mandatory (Alt a b) = mandatory a \<inter> mandatory b"
| "mandatory (Group n a) = insert n (mandatory a)"
| "mandatory r = {}"

fun fmandatory :: "frame \<Rightarrow> nat set" where
  "fmandatory (Node r) = mandatory r"
| "fmandatory (Close n i s) = {n}"

lemma run_bounds:
  "run ic ks i pv r cs = Some (e, cs') \<Longrightarrow>
     i + sum_list (map fminlen ks) \<le> e \<and> e \<le> i + length r"
proof (induction ic ks i pv r cs arbitrary: e cs' rule: run.induct)
  case (2 ic a ks i pv r cs)
  then show ?case by (cases r) (auto split: if_splits)
next
  case (4 ic a b ks i pv r cs)
  then show ?case by (fastforce split: option.splits)
next
  case (5 ic a ks i pv r cs)
  then show ?case by (cases r) (fastforce split: if_splits option.splits)+
next
  case (6 ic a ks i pv r cs)
  then show ?case by (cases r) (fastforce split: if_splits option.splits)+
next
  case (7 ic a ks i pv r cs)
  then show ?case by (cases r) (fastforce split: if_splits option.splits)+
next
  case (10 ic a ks i pv r cs)
  then show ?case by (fastforce split: option.splits)
qed (auto split: if_splits)

lemma run_groups:
  "run ic ks i pv r cs = Some (e, cs') \<Longrightarrow>
     fst ` set cs \<union> \<Union> (set (map fmandatory ks)) \<subseteq> fst ` set cs'"
proof (induction ic ks i pv r cs arbitrary: e cs' rule: run.induct)
  case (2 ic a ks i pv r cs)
  then show ?case by (cases r) (auto split: if_splits)
next
  case (4 ic a b ks i pv r cs)
  show ?case
  proof (cases "run ic (Node a # ks) i pv r cs")
    case None
    with "4.IH"(2)[OF None] "4.prems" show ?thesis by auto
  next
    case (Some res)
    with "4.IH"(1) "4.prems" show ?thesis by auto
  qed
next
  case (5 ic a ks i pv r cs)
  show ?case
  proof (cases r)
    case Nil
    with 5 show ?thesis by auto
  next
    case (Cons c r')
    show ?thesis
    proof (cases "in_class ic a c")
      case False
      with 5 Cons show ?thesis by auto
    next
      case True
      show ?thesis
      proof (cases "run ic (Node (Star a) # ks) (Suc i) (Some c) r' cs")
        case None
        with "5.IH"(3)[OF Cons True None] "5.prems" Cons True show ?thesis by auto
      next
        case (Some res)
        with "5.IH"(2)[OF Cons True] "5.prems" Cons True show ?thesis by auto
      qed
    qed
  qed
next
  case (6 ic a ks i pv r cs)
  show ?case
  proof (cases "run ic ks i pv r cs")
    case (Some res)
    with "6.IH"(1) "6.prems" show ?thesis by auto
  next
    case None
    show ?thesis
    proof (cases r)
      case Nil
      with "6.prems" None show ?thesis by auto
    next
      case (Cons c r')
      with "6.IH"(2)[OF None Cons] "6.prems" None show ?thesis by (auto split: if_splits)
    qed
  qed
next
  case (7 ic a ks i pv r cs)
  show ?case
  proof (cases r)
    case Nil
    with 7 show ?thesis by auto
  next
    case (Cons c r')
    show ?thesis
    proof (cases "in_class ic a c")
      case False
      with 7 Cons show ?thesis by auto
    next
      case True
      show ?thesis
      proof (cases "run ic ks (Suc i) (Some c) r' cs")
        case None
        with "7.IH"(3)[OF Cons True None] "7.prems" Cons True show ?thesis by auto
      next
        case (Some res)
        with "7.IH"(2)[OF Cons True] "7.prems" Cons True show ?thesis by auto
      qed
    qed
  qed
next
  case (8 ic n a ks i pv r cs)
  then show ?case by auto
next
  case (9 ic n i0 r0 ks i pv r cs)
  from "9.prems" have "run ic ks i pv r ((n, take (i - i0) r0) # cs) = Some (e, cs')" by simp
  from "9.IH"[OF this] show ?case by auto
next
  case (10 ic a ks i pv r cs)
  then show ?case by (auto split: option.splits)
next
  case (11 ic ks i pv r cs)
  then show ?case by (auto split: if_splits)
next
  case (12 ic ks i pv r cs)
  then show ?case by (auto split: if_splits)
qed auto

lemma search_bounds:
  "search ic re i pv r = Some (j, e, cs) \<Longrightarrow>
     i \<le> j \<and> j + minlen re \<le> e \<and> e \<le> i + length r \<and> mandatory re \<subseteq> fst ` set cs"
proof (induction ic re i pv r rule: search.induct)
  case (1 ic re i pv)
  then show ?case
    using run_bounds [of ic "[Node re]" i pv "[]" "[]"] run_groups [of ic "[Node re]" i pv "[]" "[]"]
    by (auto split: option.splits)
next
  case (2 ic re i pv c r)
  show ?case
  proof (cases "run ic [Node re] i pv (c # r) []")
    case None
    with 2 show ?thesis by fastforce
  next
    case (Some res)
    with 2 show ?thesis
      using run_bounds [of ic "[Node re]" i pv "c # r" "[]"]
            run_groups [of ic "[Node re]" i pv "c # r" "[]"]
      by (cases res) auto
  qed
qed

lemma length_seek: "n \<le> length s \<Longrightarrow> length (snd (seek s n pv)) = length s - n"
  by (induction s n pv rule: seek.induct) auto

lemma RegExp_exec_bounds:
  assumes "RegExp_exec re s li = (Some m, li')" and "global re"
  shows "li \<le> index m" and "index m + minlen (source re) \<le> end_index m"
    and "end_index m \<le> length s" and "li' = end_index m"
    and "mandatory (source re) \<subseteq> fst ` set (groups m)"
proof -
  obtain pv r where sk: "seek s li None = (pv, r)" by (cases "seek s li None")
  from assms have le: "li \<le> length s"
    by (auto simp: RegExp_exec_def Let_def split: if_splits)
  with sk have len: "length r = length s - li"
    using length_seek [of li s None] by simp
  from assms sk le obtain j e cs where
    s: "search (ignoreCase re) (source re) li pv r = Some (j, e, cs)"
    and m: "m = \<lparr>index = j, end_index = e, groups = cs\<rparr>" and l: "li' = e"
    by (auto simp: RegExp_exec_def Let_def split: if_splits option.splits)
  from search_bounds [OF s] len le m l
  show "li \<le> index m" and "index m + minlen (source re) \<le> end_index m"
    and "end_index m \<le> length s" and "li' = end_index m"
    and "mandatory (source re) \<subseteq> fst ` set (groups m)"
    by auto
qed

lemma RegExp_exec_None:
  "RegExp_exec re s li = (None, li') \<Longrightarrow> global re \<Longrightarrow> li' = 0"
  by (auto simp: RegExp_exec_def Let_def split: if_splits option.splits prod.splits)

text \<open>The classes, read off the bits of a code unit (used to evaluate them).\<close>

lemma is_digit_Char:
  "is_digit (Char b0 b1 b2 b3 b4 b5 b6 b7) =
     (\<not> b7 \<and> \<not> b6 \<and> b5 \<and> b4 \<and> (\<not> b3 \<or> (\<not> b2 \<and> \<not> b1)))"
  unfolding is_digit_def
  by (cases b7; cases b6; cases b5; cases b4; cases b3; cases b2; cases b1; cases b0; simp)

lemma is_space_Char:
  "is_space (Char b0 b1 b2 b3 b4 b5 b6 b7) =
     (\<not> b6 \<and> \<not> b4 \<and>
       ((\<not> b7 \<and> \<not> b5 \<and> b3 \<and> ((\<not> b2 \<and> (b1 \<or> b0)) \<or> (b2 \<and> \<not> b1)))
        \<or> (b5 \<and> \<not> b3 \<and> \<not> b2 \<and> \<not> b1 \<and> \<not> b0)))"
  unfolding is_space_def
  by (cases b7; cases b6; cases b5; cases b4; cases b3; cases b2; cases b1; cases b0; simp)

lemma is_word_Char:
  "is_word (Char b0 b1 b2 b3 b4 b5 b6 b7) =
     (\<not> b7 \<and>
       ((\<not> b6 \<and> b5 \<and> b4 \<and> (\<not> b3 \<or> (\<not> b2 \<and> \<not> b1)))
        \<or> (b6 \<and> ((\<not> b4 \<and> (b3 \<or> b2 \<or> b1 \<or> b0)) \<or> (b4 \<and> (\<not> b3 \<or> (\<not> b2 \<and> \<not> (b1 \<and> b0))))))
        \<or> (b6 \<and> \<not> b5 \<and> b4 \<and> b3 \<and> b2 \<and> b1 \<and> b0)))"
  unfolding is_word_def
  by (cases b7; cases b6; cases b5; cases b4; cases b3; cases b2; cases b1; cases b0; simp)

subsection \<open>\<open>String.prototype.match\<close> and \<open>String.prototype.replace\<close>\<close>

text \<open>
  \<open>s.match(re)\<close> for a global expression collects the text of every match from index 0
  on (stepping over an empty match) and leaves \<open>lastIndex\<close> at 0, whatever it held
  before; the result is null (\<open>None\<close>) when there is no match.
\<close>

lemma search_from_seek:
  assumes "\<not> length s < li" and "(pv, r) = seek s li None"
    and "search ic re li pv r = Some (i, e, cs)"
  shows "li \<le> i \<and> i + minlen re \<le> e \<and> e \<le> length s"
proof -
  from assms(1,2) have "length r = length s - li"
    using length_seek [of li s None] by (metis not_less snd_conv)
  with search_bounds [OF assms(3)] assms(1) show ?thesis by auto
qed

function match_loop :: "bool \<Rightarrow> regex \<Rightarrow> string \<Rightarrow> nat \<Rightarrow> string list \<Rightarrow> string list" where
  "match_loop ic re s li acc =
     (if length s < li then acc
      else
        (case seek s li None of
           (pv, r) \<Rightarrow>
             (case search ic re li pv r of
                None \<Rightarrow> acc
              | Some (i, e, cs) \<Rightarrow>
                  match_loop ic re s (if e = i then Suc e else e)
                    (acc @ [take (e - i) (drop i s)]))))"
  by pat_completeness auto
termination
  by (relation "measure (\<lambda>(ic, re, s, li, acc). Suc (length s) - li)")
     (auto simp del: search.simps dest!: search_from_seek)

definition String_match :: "string \<Rightarrow> RegExp \<Rightarrow> string list option" where
  "String_match s re =
     (case match_loop (ignoreCase re) (source re) s 0 [] of
        [] \<Rightarrow> None
      | m # ms \<Rightarrow> Some (m # ms))"

text \<open>\<open>s.replace(re, t)\<close> for an expression without the global flag replaces the first match.\<close>

definition String_replace :: "string \<Rightarrow> RegExp \<Rightarrow> string \<Rightarrow> string" where
  "String_replace s re t =
     (case search (ignoreCase re) (source re) 0 None s of
        None \<Rightarrow> s
      | Some (i, e, cs) \<Rightarrow> take i s @ t @ drop e s)"

section \<open>JSON values and \<open>JSON.parse\<close>\<close>

text \<open>
  A string of the host language is a sequence of 16-bit code units. The source text is
  Latin-1 in this development, but a JSON text can denote any code unit with a
  \<open>\<close>\<open>u\<close> escape, so the strings of a JSON document are lists of code units:
  \<open>Latin c\<close> is a unit of the Latin-1 range, \<open>Wide n\<close> is the unit \<open>256 + n\<close>.
  \<open>jstr\<close> is a Latin-1 string as such a list.
\<close>

datatype codeunit = Latin char | Wide nat

type_synonym jstring = "codeunit list"

definition jstr :: "string \<Rightarrow> jstring" where
  "jstr s = map Latin s"

text \<open>
  A JSON document. Numbers are exact rationals (the rounding to a double is not
  modelled); an object is the list of its own members in the order in which the host
  language enumerates them. A JSON text is represented by the document it denotes.
\<close>

datatype json =
    JNull
  | JBool bool
  | JNumber rat
  | JString jstring
  | JArray "json list"
  | JObject "(jstring \<times> json) list"

definition json_ws :: "char \<Rightarrow> bool" where
  "json_ws c = (c \<in> set [CHR 0x20, CHR 0x09, CHR 0x0A, CHR 0x0D])"

definition skip_ws :: "string \<Rightarrow> string" where
  "skip_ws s = dropWhile json_ws s"

fun is_control :: "char \<Rightarrow> bool" where
  "is_control (Char b0 b1 b2 b3 b4 b5 b6 b7) = (\<not> b7 \<and> \<not> b6 \<and> \<not> b5)"

definition digit_val :: "char \<Rightarrow> nat" where
  "digit_val c = (case map_of (zip ''0123456789'' [0, 1, 2, 3, 4, 5, 6, 7, 8, 9]) c of
                    Some n \<Rightarrow> n | None \<Rightarrow> 0)"

definition digits_val :: "string \<Rightarrow> nat" where
  "digits_val s = foldl (\<lambda>n c. 10 * n + digit_val c) 0 s"

definition hex_val :: "char \<Rightarrow> nat option" where
  "hex_val c = map_of (zip ''0123456789abcdefABCDEF''
                 [0, 1, 2, 3, 4, 5, 6, 7, 8, 9, 10, 11, 12, 13, 14, 15, 10, 11, 12, 13, 14, 15]) c"

definition unescape :: "char \<Rightarrow> char option" where
  "unescape c = map_of [(CHR 0x22, CHR 0x22), (CHR 0x5C, CHR 0x5C), (CHR ''/'', CHR ''/''),
     (CHR ''b'', CHR 0x08), (CHR ''f'', CHR 0x0C), (CHR ''n'', CHR 0x0A), (CHR ''r'', CHR 0x0D),
     (CHR ''t'', CHR 0x09)] c"

text \<open>A \<open>\<close>\<open>uXXXX\<close> escape denotes the code unit with that number.\<close>

definition unit_of_nat :: "nat \<Rightarrow> codeunit" where
  "unit_of_nat v = (if v < 256 then Latin (char_of v) else Wide (v - 256))"

definition unicode_escape :: "char \<Rightarrow> char \<Rightarrow> char \<Rightarrow> char \<Rightarrow> codeunit option" where
  "unicode_escape h1 h2 h3 h4 =
     (case (hex_val h1, hex_val h2, hex_val h3, hex_val h4) of
        (Some a, Some b, Some c, Some d) \<Rightarrow> Some (unit_of_nat (4096 * a + 256 * b + 16 * c + d))
      | _ \<Rightarrow> None)"

text \<open>The characters of a string literal after its opening quote, up to the closing one.\<close>

fun parse_chars :: "string \<Rightarrow> (jstring \<times> string) option" where
  "parse_chars [] = None"
| "parse_chars (c # cs) =
     (if c = CHR 0x22 then Some ([], cs)
      else if c = CHR 0x5C then
        (case cs of
           [] \<Rightarrow> None
         | e # cs' \<Rightarrow>
             if e = CHR ''u'' then
               (case cs' of
                  h1 # h2 # h3 # h4 # cs'' \<Rightarrow>
                    (case unicode_escape h1 h2 h3 h4 of
                       None \<Rightarrow> None
                     | Some ch \<Rightarrow>
                         (case parse_chars cs'' of
                            None \<Rightarrow> None
                          | Some (s, r) \<Rightarrow> Some (ch # s, r)))
                | _ \<Rightarrow> None)
             else
               (case unescape e of
                  None \<Rightarrow> None
                | Some ch \<Rightarrow>
                    (case parse_chars cs' of
                       None \<Rightarrow> None
                     | Some (s, r) \<Rightarrow> Some (Latin ch # s, r))))
      else if is_control c then None
      else
        (case parse_chars cs of
           None \<Rightarrow> None
         | Some (s, r) \<Rightarrow> Some (Latin c # s, r)))"

text \<open>
  A number: an optional minus, an integer part without a leading zero, an optional
  fraction and an optional exponent.
\<close>

definition parse_exponent :: "string \<Rightarrow> (int \<times> string) option" where
  "parse_exponent cs =
     (case cs of
        [] \<Rightarrow> Some (0, cs)
      | c # r \<Rightarrow>
          if c = CHR ''e'' \<or> c = CHR ''E'' then
            (let neg = (case r of [] \<Rightarrow> False | d # r' \<Rightarrow> d = CHR ''-'');
                 r1 = (case r of [] \<Rightarrow> r | d # r' \<Rightarrow> if d = CHR ''-'' \<or> d = CHR ''+'' then r' else r);
                 ds = takeWhile is_digit r1
             in if ds = [] then None
                else Some (if neg then - int (digits_val ds) else int (digits_val ds),
                           dropWhile is_digit r1))
          else Some (0, cs))"

definition parse_fraction :: "string \<Rightarrow> (string \<times> string) option" where
  "parse_fraction cs =
     (case cs of
        [] \<Rightarrow> Some ([], cs)
      | c # r \<Rightarrow>
          if c = CHR ''.'' then
            (let ds = takeWhile is_digit r
             in if ds = [] then None else Some (ds, dropWhile is_digit r))
          else Some ([], cs))"

definition parse_number :: "string \<Rightarrow> (json \<times> string) option" where
  "parse_number cs =
     (let neg = (case cs of [] \<Rightarrow> False | c # r \<Rightarrow> c = CHR ''-'');
          cs1 = (if neg then tl cs else cs);
          ip = takeWhile is_digit cs1
      in if ip = [] \<or> (length ip > 1 \<and> hd ip = CHR ''0'') then None
         else
           (case parse_fraction (dropWhile is_digit cs1) of
              None \<Rightarrow> None
            | Some (fp, cs2) \<Rightarrow>
                (case parse_exponent cs2 of
                   None \<Rightarrow> None
                 | Some (ex, cs3) \<Rightarrow>
                     (let mant = of_nat (digits_val (ip @ fp)) / 10 ^ length fp;
                          mag = (if 0 \<le> ex then mant * 10 ^ nat ex else mant / 10 ^ nat (- ex))
                      in Some (JNumber (if neg then - mag else mag), cs3)))))"

text \<open>A later member with the same key replaces the value of the earlier one.\<close>

fun set_member :: "jstring \<Rightarrow> json \<Rightarrow> (jstring \<times> json) list \<Rightarrow> (jstring \<times> json) list" where
  "set_member k v [] = [(k, v)]"
| "set_member k v ((k', v') # ms) =
     (if k = k' then (k, v) # ms else (k', v') # set_member k v ms)"

text \<open>
  The own members of an object are enumerated with the keys that are array indices first
  (the decimal numerals below 4294967295 without a leading zero), in ascending order,
  then the other keys in the order of their creation.
\<close>

definition array_index :: "jstring \<Rightarrow> nat option" where
  "array_index k =
     (case those (map (\<lambda>u. case u of Latin c \<Rightarrow> if is_digit c then Some c else None
                                    | Wide n \<Rightarrow> None) k) of
        None \<Rightarrow> None
      | Some ds \<Rightarrow>
          if ds = [] \<or> (1 < length ds \<and> hd ds = CHR ''0'') \<or> 4294967295 \<le> digits_val ds
          then None else Some (digits_val ds))"

definition own_members :: "(jstring \<times> json) list \<Rightarrow> (jstring \<times> json) list" where
  "own_members ms =
     sort_key (\<lambda>(k, v). the (array_index k)) (filter (\<lambda>(k, v). array_index k \<noteq> None) ms)
     @ filter (\<lambda>(k, v). array_index k = None) ms"

text \<open>
  The recursive descent. The first argument bounds the number of nested calls. A nested
  value takes two of them and at least one character, a further element or member one of
  them and at least two characters, so a bound above twice the length of the text is
  never exhausted: lemma \<open>JSON_parse_fuel\<close> below.
\<close>

fun parse_value :: "nat \<Rightarrow> string \<Rightarrow> (json \<times> string) option"
  and parse_elements :: "nat \<Rightarrow> string \<Rightarrow> json list \<Rightarrow> (json list \<times> string) option"
  and parse_members :: "nat \<Rightarrow> string \<Rightarrow> (jstring \<times> json) list
                          \<Rightarrow> ((jstring \<times> json) list \<times> string) option"
where
  "parse_value 0 cs = None"
| "parse_value (Suc n) cs =
     (case skip_ws cs of
        [] \<Rightarrow> None
      | c # r \<Rightarrow>
          if c = CHR ''{'' then
            (case skip_ws r of
               [] \<Rightarrow> None
             | d # r' \<Rightarrow>
                 if d = CHR ''}'' then Some (JObject [], r')
                 else (case parse_members n (d # r') [] of
                         None \<Rightarrow> None
                       | Some (ms, r'') \<Rightarrow> Some (JObject (own_members ms), r'')))
          else if c = CHR ''['' then
            (case skip_ws r of
               [] \<Rightarrow> None
             | d # r' \<Rightarrow>
                 if d = CHR '']'' then Some (JArray [], r')
                 else (case parse_elements n (d # r') [] of
                         None \<Rightarrow> None
                       | Some (vs, r'') \<Rightarrow> Some (JArray vs, r'')))
          else if c = CHR 0x22 then
            (case parse_chars r of
               None \<Rightarrow> None
             | Some (s, r') \<Rightarrow> Some (JString s, r'))
          else if startsWith (c # r) ''true'' then Some (JBool True, drop 4 (c # r))
          else if startsWith (c # r) ''false'' then Some (JBool False, drop 5 (c # r))
          else if startsWith (c # r) ''null'' then Some (JNull, drop 4 (c # r))
          else parse_number (c # r))"
| "parse_elements 0 cs acc = None"
| "parse_elements (Suc n) cs acc =
     (case parse_value n cs of
        None \<Rightarrow> None
      | Some (v, r) \<Rightarrow>
          (case skip_ws r of
             [] \<Rightarrow> None
           | c # r' \<Rightarrow>
               if c = CHR '','' then parse_elements n r' (acc @ [v])
               else if c = CHR '']'' then Some (acc @ [v], r')
               else None))"
| "parse_members 0 cs acc = None"
| "parse_members (Suc n) cs acc =
     (case skip_ws cs of
        [] \<Rightarrow> None
      | q # r \<Rightarrow>
          if q \<noteq> CHR 0x22 then None
          else
            (case parse_chars r of
               None \<Rightarrow> None
             | Some (k, r1) \<Rightarrow>
                 (case skip_ws r1 of
                    [] \<Rightarrow> None
                  | c # r2 \<Rightarrow>
                      if c \<noteq> CHR '':'' then None
                      else
                        (case parse_value n r2 of
                           None \<Rightarrow> None
                         | Some (v, r3) \<Rightarrow>
                             (case skip_ws r3 of
                                [] \<Rightarrow> None
                              | d # r4 \<Rightarrow>
                                  if d = CHR '','' then parse_members n r4 (set_member k v acc)
                                  else if d = CHR ''}'' then Some (set_member k v acc, r4)
                                  else None)))))"

text \<open>
  \<open>JSON.parse\<close>: the document of the text, or \<open>None\<close> where the call throws a
  SyntaxError.
\<close>

definition JSON_parse :: "string \<Rightarrow> json option" where
  "JSON_parse s =
     (case parse_value (Suc (length s + length s)) s of
        None \<Rightarrow> None
      | Some (v, r) \<Rightarrow> if skip_ws r = [] then Some v else None)"

section \<open>The data model\<close>

datatype ParameterType = TString | TNumber | TBoolean | TObject | TArray | TUnknown

record ParameterInfo =
  name :: string
  ptype :: ParameterType
  required :: bool

text \<open>A number of the host language: \<open>NaN\<close> or a value.\<close>

datatype number = NaN | Num rat

record ResponseExample =
  status :: number
  example :: json

text \<open>
  An optional property is an \<open>option\<close>: \<open>None\<close> is an absent (undefined) property.
  \<open>requestBodySchema\<close> holds a JSON value, \<open>JNull\<close> for null; \<open>response\<close> is
  \<open>Some None\<close> for null.
\<close>

record EndpointInfo =
  "method" :: string
  path :: string
  description :: "string option"
  parameters :: "ParameterInfo list"
  requestBodySchema :: "json option"
  response :: "ResponseExample option option"
  framework :: "string option"
  sourceFile :: "string option"
  line :: "nat option"

text \<open>
  Both modules declare \<open>ScanResult\<close>. The endpoints of the result of a scan are the
  records that the extraction builds; the endpoints that \<open>output.ts\<close> is given are
  objects of which it reads two members and prints all (see there).
\<close>

record 'e ScanResult =
  scannedAt :: "string option"
  rootDir :: "string option"
  endpoints :: "'e list"
  warnings :: "string list option"

datatype error = TypeError | PluginError

text \<open>
  A plugin's callbacks may keep state between calls (the built-in ones do, through the
  \<open>lastIndex\<close> of the module's global expressions), and each of them may throw.
\<close>

record 's FrameworkPlugin =
  plugin_name :: string
  plugin_match :: "string \<Rightarrow> string \<Rightarrow> 's \<Rightarrow> (error + bool) \<times> 's"
  plugin_extract :: "string \<Rightarrow> string \<Rightarrow> 's \<Rightarrow> (error + EndpointInfo list) \<times> 's"

section \<open>index.ts\<close>

definition HTTP_METHODS :: "string list" where
  "HTTP_METHODS = [''GET'', ''POST'', ''PUT'', ''DELETE'']"

definition quotes :: "char list" where
  "quotes = [CHR 0x60, CHR 0x22, CHR 0x27]"

definition ROUTE_METHOD_REGEX :: RegExp where
  "ROUTE_METHOD_REGEX =
     \<lparr>source = Seqs [WordB,
        Group 1 (Alts [Str ''get'', Str ''post'', Str ''put'', Str ''delete'']),
        Star Space, Atom (Lit CHR ''(''), Star Space, Atom (OneOf quotes),
        Group 2 (Plus (NoneOf quotes)), Atom (OneOf quotes)],
      global = True, ignoreCase = True\<rparr>"

definition FASTIFY_ROUTE_REGEX :: RegExp where
  "FASTIFY_ROUTE_REGEX =
     \<lparr>source = Seqs [WordB, Str ''route'', Star Space, Atom (Lit CHR ''(''), Star Space,
        Atom (Lit CHR ''{''), Lazy Any,
        Str ''method'', Star Space, Atom (Lit CHR '':''), Star Space, Atom (OneOf quotes),
        Group 1 (Alts [Str ''GET'', Str ''POST'', Str ''PUT'', Str ''DELETE'']),
        Atom (OneOf quotes), Lazy Any,
        Str ''url'', Star Space, Atom (Lit CHR '':''), Star Space, Atom (OneOf quotes),
        Group 2 (Plus (NoneOf quotes)), Atom (OneOf quotes), Lazy Any,
        Atom (Lit CHR ''}''), Star Space, Atom (Lit CHR '')'')],
      global = True, ignoreCase = True\<rparr>"

definition NEST_DECORATOR_REGEX :: RegExp where
  "NEST_DECORATOR_REGEX =
     \<lparr>source = Seqs [Atom (Lit CHR ''@''),
        Group 1 (Alts [Str ''Get'', Str ''Post'', Str ''Put'', Str ''Delete'']),
        Star Space, Atom (Lit CHR ''(''), Star Space, Atom (OneOf quotes),
        Group 2 (Star (NoneOf quotes)), Opt (OneOf quotes), Star Space, Atom (Lit CHR '')'')],
      global = True, ignoreCase = False\<rparr>"

definition PARAM_JSDOC_REGEX :: RegExp where
  "PARAM_JSDOC_REGEX =
     \<lparr>source = Seqs [Str ''@param'', Plus Space, Atom (Lit CHR ''{''),
        Group 1 (Plus (NoneOf ''}'')), Atom (Lit CHR ''}''), Plus Space, Group 2 (Plus Word)],
      global = True, ignoreCase = False\<rparr>"

definition annotation_end :: regex where
  "annotation_end = Ahead (Alt (Atom (Lit CHR ''@'')) (Str ''*/''))"

definition RESPONSE_EXAMPLE_REGEX :: RegExp where
  "RESPONSE_EXAMPLE_REGEX =
     \<lparr>source = Seqs [Str ''@responseExample'', Plus Space,
        Group 1 (Seqs [Atom Digit, Atom Digit, Atom Digit]), Plus Space,
        Group 2 (Lazy Any), annotation_end],
      global = True, ignoreCase = False\<rparr>"

definition REQUEST_SCHEMA_REGEX :: RegExp where
  "REQUEST_SCHEMA_REGEX =
     \<lparr>source = Seqs [Str ''@requestBody'', Plus Space, Group 1 (Lazy Any), annotation_end],
      global = True, ignoreCase = False\<rparr>"

definition COMMENT_BLOCK_REGEX :: RegExp where
  "COMMENT_BLOCK_REGEX =
     \<lparr>source = Seqs [Str ''/**'', Lazy Any, Str ''*/''], global = True, ignoreCase = False\<rparr>"

text \<open>The expressions written in place: the line decoration and the three markers.\<close>

definition LINE_DECORATION_REGEX :: RegExp where
  "LINE_DECORATION_REGEX =
     \<lparr>source = Seqs [Bol, Star Space, Atom (Lit CHR ''*''), Opt Space],
      global = False, ignoreCase = False\<rparr>"

definition EXPRESS_MARKER_REGEX :: RegExp where
  "EXPRESS_MARKER_REGEX =
     \<lparr>source = Alt (Seqs [WordB, Str ''express'', WordB]) (Seqs [WordB, Str ''Router'', WordB]),
      global = False, ignoreCase = False\<rparr>"

definition FASTIFY_MARKER_REGEX :: RegExp where
  "FASTIFY_MARKER_REGEX =
     \<lparr>source = Seqs [WordB, Str ''fastify'', WordB], global = False, ignoreCase = False\<rparr>"

definition CONTROLLER_MARKER_REGEX :: RegExp where
  "CONTROLLER_MARKER_REGEX =
     \<lparr>source = Seqs [Str ''@Controller'', WordB], global = False, ignoreCase = False\<rparr>"

text \<open>
  The state of the module: the \<open>lastIndex\<close> of each global expression that is used
  with \<open>exec\<close> or \<open>test\<close>. (\<open>COMMENT_BLOCK_REGEX\<close> is only used with
  \<open>String.prototype.match\<close>, which resets \<open>lastIndex\<close> to 0 before and after.)
\<close>

record RegexState =
  ROUTE_METHOD_lastIndex :: nat
  FASTIFY_ROUTE_lastIndex :: nat
  NEST_DECORATOR_lastIndex :: nat
  PARAM_JSDOC_lastIndex :: nat
  RESPONSE_EXAMPLE_lastIndex :: nat
  REQUEST_SCHEMA_lastIndex :: nat

definition initial_state :: RegexState where
  "initial_state =
     \<lparr>ROUTE_METHOD_lastIndex = 0, FASTIFY_ROUTE_lastIndex = 0, NEST_DECORATOR_lastIndex = 0,
      PARAM_JSDOC_lastIndex = 0, RESPONSE_EXAMPLE_lastIndex = 0, REQUEST_SCHEMA_lastIndex = 0\<rparr>"

definition detectParameterType :: "string \<Rightarrow> ParameterType" where
  "detectParameterType raw =
     (let v = toLowerCase raw in
      if String_includes v ''string'' then TString
      else if String_includes v ''number'' \<or> String_includes v ''int'' \<or> String_includes v ''float''
        then TNumber
      else if String_includes v ''boolean'' \<or> String_includes v ''bool'' then TBoolean
      else if String_includes v ''array'' then TArray
      else if String_includes v ''object'' then TObject
      else TUnknown)"

definition extractDocBlock :: "string \<Rightarrow> nat \<Rightarrow> string option" where
  "extractDocBlock content i =
     (let upToIndex = take i content in
      case String_match upToIndex COMMENT_BLOCK_REGEX of
        None \<Rightarrow> None
      | Some matches \<Rightarrow> if matches = [] then None else Some (last matches))"

record Doc =
  doc_description :: "string option"
  doc_params :: "ParameterInfo list"
  doc_requestBodySchema :: json
  doc_response :: "ResponseExample option"

lemma exec_progress:
  assumes "(Some m, li') = RegExp_exec re s li" and "global re" and "0 < minlen (source re)"
  shows "Suc (length s) - li' < Suc (length s) - li"
  using RegExp_exec_bounds [OF assms(1) [symmetric] assms(2)] assms(3) by simp

lemma regex_facts:
  "global ROUTE_METHOD_REGEX" "0 < minlen (source ROUTE_METHOD_REGEX)"
  "global FASTIFY_ROUTE_REGEX" "0 < minlen (source FASTIFY_ROUTE_REGEX)"
  "global NEST_DECORATOR_REGEX" "0 < minlen (source NEST_DECORATOR_REGEX)"
  "global PARAM_JSDOC_REGEX" "0 < minlen (source PARAM_JSDOC_REGEX)"
  "global RESPONSE_EXAMPLE_REGEX" "global REQUEST_SCHEMA_REGEX"
  by (simp_all add: ROUTE_METHOD_REGEX_def FASTIFY_ROUTE_REGEX_def NEST_DECORATOR_REGEX_def
        PARAM_JSDOC_REGEX_def RESPONSE_EXAMPLE_REGEX_def REQUEST_SCHEMA_REGEX_def Plus_def)

text \<open>The \<open>while ((match = PARAM_JSDOC_REGEX.exec(block)))\<close> loop of \<open>parseDocBlock\<close>.\<close>

function param_loop :: "string \<Rightarrow> ParameterInfo list \<Rightarrow> RegexState
                          \<Rightarrow> ParameterInfo list \<times> RegexState" where
  "param_loop block params st =
     (case RegExp_exec PARAM_JSDOC_REGEX block (PARAM_JSDOC_lastIndex st) of
        (None, li) \<Rightarrow> (params, st\<lparr>PARAM_JSDOC_lastIndex := li\<rparr>)
      | (Some m, li) \<Rightarrow>
          (let typeRaw = (case group m 1 of None \<Rightarrow> [] | Some t \<Rightarrow> t);
               nm = (case group m 2 of None \<Rightarrow> [] | Some n \<Rightarrow> n)
           in if nm = [] then param_loop block params (st\<lparr>PARAM_JSDOC_lastIndex := li\<rparr>)
              else param_loop block
                     (params @ [\<lparr>name = nm, ptype = detectParameterType typeRaw,
                                 required = \<not> String_includes typeRaw ''=''\<rparr>])
                     (st\<lparr>PARAM_JSDOC_lastIndex := li\<rparr>)))"
  by pat_completeness auto
termination
  by (relation "measure (\<lambda>(block, params, st). Suc (length block) - PARAM_JSDOC_lastIndex st)")
     (auto dest!: exec_progress simp: regex_facts)

text \<open>\<open>Number\<close> applied to the text of a capture group (\<open>NaN\<close> for undefined).\<close>

definition Number :: "string option \<Rightarrow> number" where
  "Number t =
     (case t of
        None \<Rightarrow> NaN
      | Some ds \<Rightarrow> if ds \<noteq> [] \<and> dropWhile is_digit ds = [] then Num (of_nat (digits_val ds))
                   else NaN)"

definition nl :: char where
  "nl = CHR 0x0A"

definition parseDocBlock :: "string option \<Rightarrow> RegexState \<Rightarrow> (error + Doc) \<times> RegexState" where
  "parseDocBlock block st =
     (case block of
        None \<Rightarrow>
          (Inr \<lparr>doc_description = None, doc_params = [], doc_requestBodySchema = JNull,
                doc_response = None\<rparr>, st)
      | Some b \<Rightarrow>
          if b = [] then
            (Inr \<lparr>doc_description = None, doc_params = [], doc_requestBodySchema = JNull,
                  doc_response = None\<rparr>, st)
          else
            (let descriptionLines =
                   filter (\<lambda>l. l \<noteq> [] \<and> \<not> startsWith l ''@'')
                     (map (\<lambda>l. trim (String_replace l LINE_DECORATION_REGEX []))
                        (String_split nl b));
                 d = trim (String_join '' '' descriptionLines);
                 description = (if d = [] then None else Some d)
             in case param_loop b [] st of
               (params, st1) \<Rightarrow>
                 (case RegExp_exec RESPONSE_EXAMPLE_REGEX b (RESPONSE_EXAMPLE_lastIndex st1) of
                    (responseMatch, li2) \<Rightarrow>
                      (let st2 = st1\<lparr>RESPONSE_EXAMPLE_lastIndex := li2\<rparr> in
                       case (case responseMatch of
                               None \<Rightarrow> Inr None
                             | Some m \<Rightarrow>
                                 (case group m 2 of
                                    None \<Rightarrow> Inl TypeError
                                  | Some g \<Rightarrow>
                                      (let exampleRaw = trim g in
                                       Inr (Some \<lparr>status = Number (group m 1),
                                                   example = (case JSON_parse exampleRaw of
                                                                Some v \<Rightarrow> v
                                                              | None \<Rightarrow> JString (jstr exampleRaw))\<rparr>)))) of
                         Inl err \<Rightarrow> (Inl err, st2)
                       | Inr resp \<Rightarrow>
                           (case RegExp_exec REQUEST_SCHEMA_REGEX b (REQUEST_SCHEMA_lastIndex st2) of
                              (requestMatch, li3) \<Rightarrow>
                                (let st3 = st2\<lparr>REQUEST_SCHEMA_lastIndex := li3\<rparr> in
                                 case (case requestMatch of
                                         None \<Rightarrow> Inr JNull
                                       | Some m \<Rightarrow>
                                           (case group m 1 of
                                              None \<Rightarrow> Inl TypeError
                                            | Some g \<Rightarrow>
                                                (let schemaRaw = trim g in
                                                 Inr (case JSON_parse schemaRaw of
                                                        Some v \<Rightarrow> v
                                                      | None \<Rightarrow> JObject [(jstr ''schema'',
                                                                           JString (jstr schemaRaw))])))) of
                                   Inl err \<Rightarrow> (Inl err, st3)
                                 | Inr schema \<Rightarrow>
                                     (Inr \<lparr>doc_description = description, doc_params = params,
                                           doc_requestBodySchema = schema, doc_response = resp\<rparr>,
                                      st3)))))))"

lemma param_loop_preserves:
  "param_loop block params st = (ps, st') \<Longrightarrow>
     ROUTE_METHOD_lastIndex st' = ROUTE_METHOD_lastIndex st \<and>
     FASTIFY_ROUTE_lastIndex st' = FASTIFY_ROUTE_lastIndex st \<and>
     NEST_DECORATOR_lastIndex st' = NEST_DECORATOR_lastIndex st"
proof (induction block params st arbitrary: ps st' rule: param_loop.induct)
  case (1 block params st)
  show ?case
  proof (cases "RegExp_exec PARAM_JSDOC_REGEX block (PARAM_JSDOC_lastIndex st)")
    case (Pair mo li)
    show ?thesis
    proof (cases mo)
      case None
      with Pair "1.prems" show ?thesis
        by (subst (asm) param_loop.simps) auto
    next
      case (Some m)
      from "1.prems" Pair Some "1.IH"(1) [OF Pair [symmetric] Some refl refl]
           "1.IH"(2) [OF Pair [symmetric] Some refl refl]
      show ?thesis
        by (subst (asm) param_loop.simps) (auto simp: Let_def split: if_splits)
    qed
  qed
qed

lemma parseDocBlock_state:
  assumes "parseDocBlock block st = (r, st')"
  shows "st' = st \<or>
    (\<exists>b ps st1 li2 li3. param_loop b [] st = (ps, st1) \<and>
       (st' = st1\<lparr>RESPONSE_EXAMPLE_lastIndex := li2\<rparr> \<or>
        st' = st1\<lparr>RESPONSE_EXAMPLE_lastIndex := li2, REQUEST_SCHEMA_lastIndex := li3\<rparr>))"
proof (cases block)
  case None
  with assms show ?thesis by (simp add: parseDocBlock_def)
next
  case (Some b)
  show ?thesis
  proof (cases "b = []")
    case True
    with assms Some show ?thesis by (simp add: parseDocBlock_def)
  next
    case False
    obtain ps st1 where pl: "param_loop b [] st = (ps, st1)"
      by (cases "param_loop b [] st")
    obtain rm li2 where re:
      "RegExp_exec RESPONSE_EXAMPLE_REGEX b (RESPONSE_EXAMPLE_lastIndex st1) = (rm, li2)"
      by (cases "RegExp_exec RESPONSE_EXAMPLE_REGEX b (RESPONSE_EXAMPLE_lastIndex st1)")
    obtain qm li3 where qe:
      "RegExp_exec REQUEST_SCHEMA_REGEX b (REQUEST_SCHEMA_lastIndex st1) = (qm, li3)"
      by (cases "RegExp_exec REQUEST_SCHEMA_REGEX b (REQUEST_SCHEMA_lastIndex st1)")
    from assms Some False pl re qe
    have "st' = st1\<lparr>RESPONSE_EXAMPLE_lastIndex := li2\<rparr> \<or>
          st' = st1\<lparr>RESPONSE_EXAMPLE_lastIndex := li2, REQUEST_SCHEMA_lastIndex := li3\<rparr>"
      by (simp add: parseDocBlock_def Let_def split: option.splits sum.splits)
    with pl show ?thesis by blast
  qed
qed

lemma parseDocBlock_preserves:
  assumes "parseDocBlock block st = (r, st')"
  shows "ROUTE_METHOD_lastIndex st' = ROUTE_METHOD_lastIndex st"
    and "FASTIFY_ROUTE_lastIndex st' = FASTIFY_ROUTE_lastIndex st"
    and "NEST_DECORATOR_lastIndex st' = NEST_DECORATOR_lastIndex st"
  using parseDocBlock_state [OF assms] param_loop_preserves by fastforce+

text \<open>The three extraction loops, \<open>while ((match = \<dots>.exec(content)))\<close>.\<close>

function extractExpressRoutes_loop ::
  "string \<Rightarrow> string \<Rightarrow> EndpointInfo list \<Rightarrow> RegexState
     \<Rightarrow> (error + EndpointInfo list) \<times> RegexState" where
  "extractExpressRoutes_loop filePath content eps st =
     (case RegExp_exec ROUTE_METHOD_REGEX content (ROUTE_METHOD_lastIndex st) of
        (None, li) \<Rightarrow> (Inr eps, st\<lparr>ROUTE_METHOD_lastIndex := li\<rparr>)
      | (Some m, li) \<Rightarrow>
          (let st1 = st\<lparr>ROUTE_METHOD_lastIndex := li\<rparr>;
               routePath = (case group m 2 of None \<Rightarrow> [] | Some p \<Rightarrow> p)
           in case map_option toUpperCase (group m 1) of
                None \<Rightarrow> extractExpressRoutes_loop filePath content eps st1
              | Some meth \<Rightarrow>
                  if meth \<notin> set HTTP_METHODS \<or> routePath = []
                  then extractExpressRoutes_loop filePath content eps st1
                  else
                    (case parseDocBlock (extractDocBlock content (index m)) st1 of
                       (Inl err, st2) \<Rightarrow> (Inl err, st2)
                     | (Inr doc, st2) \<Rightarrow>
                         extractExpressRoutes_loop filePath content
                           (eps @ [\<lparr>method = meth, path = routePath,
                                    description = doc_description doc,
                                    parameters = doc_params doc,
                                    requestBodySchema = Some (doc_requestBodySchema doc),
                                    response = Some (doc_response doc),
                                    framework = Some ''express'',
                                    sourceFile = Some filePath, line = None\<rparr>])
                           st2)))"
  by pat_completeness auto
termination
  by (relation "measure (\<lambda>(filePath, content, eps, st).
                   Suc (length content) - ROUTE_METHOD_lastIndex st)")
     (auto dest!: exec_progress parseDocBlock_preserves(1) [OF sym] simp: regex_facts)

definition extractExpressRoutes ::
  "string \<Rightarrow> string \<Rightarrow> RegexState \<Rightarrow> (error + EndpointInfo list) \<times> RegexState" where
  "extractExpressRoutes filePath content st = extractExpressRoutes_loop filePath content [] st"

function extractFastifyRoutes_loop ::
  "string \<Rightarrow> string \<Rightarrow> EndpointInfo list \<Rightarrow> RegexState
     \<Rightarrow> (error + EndpointInfo list) \<times> RegexState" where
  "extractFastifyRoutes_loop filePath content eps st =
     (case RegExp_exec FASTIFY_ROUTE_REGEX content (FASTIFY_ROUTE_lastIndex st) of
        (None, li) \<Rightarrow> (Inr eps, st\<lparr>FASTIFY_ROUTE_lastIndex := li\<rparr>)
      | (Some m, li) \<Rightarrow>
          (let st1 = st\<lparr>FASTIFY_ROUTE_lastIndex := li\<rparr>;
               routePath = (case group m 2 of None \<Rightarrow> [] | Some p \<Rightarrow> p)
           in case map_option toUpperCase (group m 1) of
                None \<Rightarrow> extractFastifyRoutes_loop filePath content eps st1
              | Some meth \<Rightarrow>
                  if meth \<notin> set HTTP_METHODS \<or> routePath = []
                  then extractFastifyRoutes_loop filePath content eps st1
                  else
                    (case parseDocBlock (extractDocBlock content (index m)) st1 of
                       (Inl err, st2) \<Rightarrow> (Inl err, st2)
                     | (Inr doc, st2) \<Rightarrow>
                         extractFastifyRoutes_loop filePath content
                           (eps @ [\<lparr>method = meth, path = routePath,
                                    description = doc_description doc,
                                    parameters = doc_params doc,
                                    requestBodySchema = Some (doc_requestBodySchema doc),
                                    response = Some (doc_response doc),
                                    framework = Some ''fastify'',
                                    sourceFile = Some filePath, line = None\<rparr>])
                           st2)))"
  by pat_completeness auto
termination
  by (relation "measure (\<lambda>(filePath, content, eps, st).
                   Suc (length content) - FASTIFY_ROUTE_lastIndex st)")
     (auto dest!: exec_progress parseDocBlock_preserves(2) [OF sym] simp: regex_facts)

definition extractFastifyRoutes ::
  "string \<Rightarrow> string \<Rightarrow> RegexState \<Rightarrow> (error + EndpointInfo list) \<times> RegexState" where
  "extractFastifyRoutes filePath content st = extractFastifyRoutes_loop filePath content [] st"

function extractNestRoutes_loop ::
  "string \<Rightarrow> string \<Rightarrow> EndpointInfo list \<Rightarrow> RegexState
     \<Rightarrow> (error + EndpointInfo list) \<times> RegexState" where
  "extractNestRoutes_loop filePath content eps st =
     (case RegExp_exec NEST_DECORATOR_REGEX content (NEST_DECORATOR_lastIndex st) of
        (None, li) \<Rightarrow> (Inr eps, st\<lparr>NEST_DECORATOR_lastIndex := li\<rparr>)
      | (Some m, li) \<Rightarrow>
          (let st1 = st\<lparr>NEST_DECORATOR_lastIndex := li\<rparr>;
               routePath = (case group m 2 of None \<Rightarrow> [] | Some p \<Rightarrow> p)
           in case map_option toUpperCase (group m 1) of
                None \<Rightarrow> extractNestRoutes_loop filePath content eps st1
              | Some meth \<Rightarrow>
                  if meth \<notin> set HTTP_METHODS
                  then extractNestRoutes_loop filePath content eps st1
                  else
                    (case parseDocBlock (extractDocBlock content (index m)) st1 of
                       (Inl err, st2) \<Rightarrow> (Inl err, st2)
                     | (Inr doc, st2) \<Rightarrow>
                         extractNestRoutes_loop filePath content
                           (eps @ [\<lparr>method = meth,
                                    path = (if routePath = [] then ''/'' else routePath),
                                    description = doc_description doc,
                                    parameters = doc_params doc,
                                    requestBodySchema = Some (doc_requestBodySchema doc),
                                    response = Some (doc_response doc),
                                    framework = Some ''nestjs'',
                                    sourceFile = Some filePath, line = None\<rparr>])
                           st2)))"
  by pat_completeness auto
termination
  by (relation "measure (\<lambda>(filePath, content, eps, st).
                   Suc (length content) - NEST_DECORATOR_lastIndex st)")
     (auto dest!: exec_progress parseDocBlock_preserves(3) [OF sym] simp: regex_facts)

definition extractNestRoutes ::
  "string \<Rightarrow> string \<Rightarrow> RegexState \<Rightarrow> (error + EndpointInfo list) \<times> RegexState" where
  "extractNestRoutes filePath content st = extractNestRoutes_loop filePath content [] st"

definition express_match ::
  "string \<Rightarrow> string \<Rightarrow> RegexState \<Rightarrow> (error + bool) \<times> RegexState" where
  "express_match filePath content st =
     (if fst (RegExp_test EXPRESS_MARKER_REGEX content 0) then
        (case RegExp_test ROUTE_METHOD_REGEX content (ROUTE_METHOD_lastIndex st) of
           (b, li) \<Rightarrow> (Inr b, st\<lparr>ROUTE_METHOD_lastIndex := li\<rparr>))
      else (Inr False, st))"

definition fastify_match ::
  "string \<Rightarrow> string \<Rightarrow> RegexState \<Rightarrow> (error + bool) \<times> RegexState" where
  "fastify_match filePath content st =
     (if fst (RegExp_test FASTIFY_MARKER_REGEX content 0) then
        (case RegExp_test FASTIFY_ROUTE_REGEX content (FASTIFY_ROUTE_lastIndex st) of
           (b, li) \<Rightarrow> (Inr b, st\<lparr>FASTIFY_ROUTE_lastIndex := li\<rparr>))
      else (Inr False, st))"

definition nestjs_match ::
  "string \<Rightarrow> string \<Rightarrow> RegexState \<Rightarrow> (error + bool) \<times> RegexState" where
  "nestjs_match filePath content st =
     (Inr (endsWith filePath ''.ts'' \<and> fst (RegExp_test CONTROLLER_MARKER_REGEX content 0)), st)"

definition createDefaultPlugins :: "RegexState FrameworkPlugin list" where
  "createDefaultPlugins =
     [\<lparr>plugin_name = ''express'', plugin_match = express_match,
       plugin_extract = extractExpressRoutes\<rparr>,
      \<lparr>plugin_name = ''fastify'', plugin_match = fastify_match,
       plugin_extract = extractFastifyRoutes\<rparr>,
      \<lparr>plugin_name = ''nestjs'', plugin_match = nestjs_match,
       plugin_extract = extractNestRoutes\<rparr>]"

text \<open>
  \<open>scanBackendProject\<close>. The collected files are given with their text, in the order
  \<open>readAllFiles\<close> returns them; \<open>now\<close> is the time stamp. \<open>filter_plugins\<close> is
  \<open>plugins.filter((plugin) => plugin.match(filePath, content))\<close>, \<open>run_plugins\<close> the
  loop over the matched plugins and \<open>scan_files\<close> the loop over the files. Only the call
  of \<open>extract\<close> is inside a \<open>try\<close>: a throw of \<open>match\<close> ends the scan, which then has no
  result (\<open>Inl\<close>).
\<close>

fun filter_plugins :: "'s FrameworkPlugin list \<Rightarrow> string \<Rightarrow> string \<Rightarrow> 's
                         \<Rightarrow> (error + 's FrameworkPlugin list) \<times> 's" where
  "filter_plugins [] filePath content st = (Inr [], st)"
| "filter_plugins (p # ps) filePath content st =
     (case plugin_match p filePath content st of
        (Inl err, st1) \<Rightarrow> (Inl err, st1)
      | (Inr b, st1) \<Rightarrow>
          (case filter_plugins ps filePath content st1 of
             (Inl err, st2) \<Rightarrow> (Inl err, st2)
           | (Inr ms, st2) \<Rightarrow> (Inr (if b then p # ms else ms), st2)))"

definition warning_text :: "string \<Rightarrow> string \<Rightarrow> string" where
  "warning_text filePath pname = ''Failed to parse '' @ filePath @ '' with '' @ pname"

fun run_plugins :: "'s FrameworkPlugin list \<Rightarrow> string \<Rightarrow> string \<Rightarrow> EndpointInfo list
                      \<Rightarrow> string list \<Rightarrow> 's \<Rightarrow> EndpointInfo list \<times> string list \<times> 's" where
  "run_plugins [] filePath content eps ws st = (eps, ws, st)"
| "run_plugins (p # ps) filePath content eps ws st =
     (case plugin_extract p filePath content st of
        (Inr extracted, st1) \<Rightarrow> run_plugins ps filePath content (eps @ extracted) ws st1
      | (Inl err, st1) \<Rightarrow>
          run_plugins ps filePath content eps (ws @ [warning_text filePath (plugin_name p)]) st1)"

fun scan_files :: "'s FrameworkPlugin list \<Rightarrow> (string \<times> string) list \<Rightarrow> EndpointInfo list
                     \<Rightarrow> string list \<Rightarrow> 's
                     \<Rightarrow> (error + EndpointInfo list \<times> string list) \<times> 's" where
  "scan_files plugins [] eps ws st = (Inr (eps, ws), st)"
| "scan_files plugins ((filePath, content) # files) eps ws st =
     (case filter_plugins plugins filePath content st of
        (Inl err, st1) \<Rightarrow> (Inl err, st1)
      | (Inr matchedPlugins, st1) \<Rightarrow>
          if matchedPlugins = [] then scan_files plugins files eps ws st1
          else
            (case run_plugins matchedPlugins filePath content eps ws st1 of
               (eps', ws', st2) \<Rightarrow> scan_files plugins files eps' ws' st2))"

definition scanBackendProject ::
  "string \<Rightarrow> string \<Rightarrow> 's FrameworkPlugin list \<Rightarrow> (string \<times> string) list \<Rightarrow> 's
     \<Rightarrow> (error + EndpointInfo ScanResult) \<times> 's" where
  "scanBackendProject dir now plugins files st =
     (case scan_files plugins files [] [] st of
        (Inl err, st') \<Rightarrow> (Inl err, st')
      | (Inr (eps, ws), st') \<Rightarrow>
          (Inr \<lparr>scannedAt = Some now, rootDir = Some dir, endpoints = eps, warnings = Some ws\<rparr>,
           st'))"

section \<open>output.ts\<close>

definition OUTPUT_DIR :: string where
  "OUTPUT_DIR = ''.zeus-core''"

definition OUTPUT_FILE :: string where
  "OUTPUT_FILE = ''output.json''"

text \<open>
  \<open>path.join\<close> of two paths (POSIX): the arguments that are not empty, joined with a
  slash and normalised. The normalisation drops the empty segments and the segments
  \<open>.\<close>, lets a segment \<open>..\<close> take back the segment before it (a relative path keeps
  those that have nothing to take back), and keeps a leading and a trailing slash.
\<close>

fun resolve_segments :: "bool \<Rightarrow> string list \<Rightarrow> string list \<Rightarrow> string list" where
  "resolve_segments allowAboveRoot [] res = rev res"
| "resolve_segments allowAboveRoot (seg # segs) res =
     (if seg = [] \<or> seg = ''.'' then resolve_segments allowAboveRoot segs res
      else if seg = ''..'' then
        (case res of
           [] \<Rightarrow> resolve_segments allowAboveRoot segs (if allowAboveRoot then [''..''] else [])
         | l # ls \<Rightarrow>
             if l = ''..''
             then resolve_segments allowAboveRoot segs (if allowAboveRoot then ''..'' # res else res)
             else resolve_segments allowAboveRoot segs ls)
      else resolve_segments allowAboveRoot segs (seg # res))"

definition path_normalize :: "string \<Rightarrow> string" where
  "path_normalize p =
     (if p = [] then ''.''
      else
        (let isAbsolute = (hd p = CHR ''/'');
             trailingSeparator = (last p = CHR ''/'');
             body = String_join ''/''
                      (resolve_segments (\<not> isAbsolute) (String_split CHR ''/'' p) [])
         in if body = [] then (if isAbsolute then ''/'' else if trailingSeparator then ''./'' else ''.'')
            else (if isAbsolute then ''/'' else []) @ body
                 @ (if trailingSeparator then ''/'' else [])))"

definition path_join :: "string \<Rightarrow> string \<Rightarrow> string" where
  "path_join a b =
     (let parts = filter (\<lambda>s. s \<noteq> []) [a, b]
      in if parts = [] then ''.'' else path_normalize (String_join ''/'' parts))"

text \<open>
  An endpoint, for this module, is an object of which it reads the members \<open>method\<close> and
  \<open>path\<close> and which it prints with \<open>JSON.stringify\<close>. The object is represented by its
  own members as \<open>JSON.stringify\<close> prints them, in the object's own order: a member whose
  value is undefined is not among them. The type \<open>EndpointInfo\<close> declares \<open>method\<close> and
  \<open>path\<close> as strings.
\<close>

type_synonym members = "(jstring \<times> json) list"

text \<open>
  The text of a value inside a template literal. The digits of a number are those of its
  decimal expansion, cut after twenty places; this is the text of the host language for
  the integers below \<open>1e21\<close> and for the short decimal fractions from \<open>1e-6\<close> on.
\<close>

fun nat_text :: "nat \<Rightarrow> string" where
  "nat_text n =
     (if n < 10 then [char_of (48 + n)] else nat_text (n div 10) @ [char_of (48 + n mod 10)])"

fun fraction_text :: "nat \<Rightarrow> nat \<Rightarrow> nat \<Rightarrow> string" where
  "fraction_text 0 r b = []"
| "fraction_text (Suc k) r b =
     (if r = 0 then []
      else char_of (48 + 10 * r div b) # fraction_text k (10 * r mod b) b)"

definition Number_text :: "rat \<Rightarrow> string" where
  "Number_text q =
     (case quotient_of \<bar>q\<bar> of
        (a, b) \<Rightarrow>
          (if q < 0 then ''-'' else []) @ nat_text (nat (a div b))
          @ (if a mod b = 0 then [] else ''.'' @ fraction_text 20 (nat (a mod b)) (nat b)))"

fun ToString :: "json \<Rightarrow> jstring" where
  "ToString JNull = jstr ''null''"
| "ToString (JBool b) = jstr (if b then ''true'' else ''false'')"
| "ToString (JNumber q) = jstr (Number_text q)"
| "ToString (JString s) = s"
| "ToString (JArray vs) =
     String_join (jstr '','') (map (\<lambda>v. if v = JNull then [] else ToString v) vs)"
| "ToString (JObject ms) = jstr ''[object Object]''"

definition template_text :: "json option \<Rightarrow> jstring" where
  "template_text v = (case v of None \<Rightarrow> jstr ''undefined'' | Some x \<Rightarrow> ToString x)"

definition endpointKey :: "members \<Rightarrow> jstring" where
  "endpointKey endpoint =
     template_text (map_of endpoint (jstr ''method'')) @ jstr '' ''
     @ template_text (map_of endpoint (jstr ''path''))"

definition normalizeForCompare :: "members \<Rightarrow> json" where
  "normalizeForCompare endpoint = JObject endpoint"

record OutputWriteOptions =
  options_rootDir :: string
  incremental :: "bool option"

record OutputWriteResult =
  outputPath :: string
  wroteFile :: bool
  endpointsWritten :: nat
  endpointsUnchanged :: nat

text \<open>\<open>new Map(entries)\<close>: a later entry with the same key replaces the earlier one.\<close>

definition Map_of_entries :: "('k \<times> 'v) list \<Rightarrow> ('k \<rightharpoonup> 'v)" where
  "Map_of_entries es = foldl (\<lambda>m (k, v). m(k \<mapsto> v)) Map.empty es"

text \<open>The loop \<open>for (const endpoint of data.endpoints)\<close> of \<open>writeOutputJson\<close>.\<close>

fun reconcile :: "(jstring \<rightharpoonup> json) \<Rightarrow> members list \<Rightarrow> members list \<Rightarrow> nat
                    \<Rightarrow> members list \<times> nat" where
  "reconcile existingMap [] nextEndpoints unchanged = (nextEndpoints, unchanged)"
| "reconcile existingMap (endpoint # rest) nextEndpoints unchanged =
     (let key = endpointKey endpoint;
          serialized = normalizeForCompare endpoint;
          existingSerialized = existingMap key
      in if (case existingSerialized of None \<Rightarrow> False | Some e \<Rightarrow> e = serialized)
         then reconcile existingMap rest (nextEndpoints @ [endpoint]) (unchanged + 1)
         else reconcile existingMap rest (nextEndpoints @ [endpoint]) unchanged)"

text \<open>
  \<open>writeOutputJson\<close>. The disk is the snapshot file: \<open>None\<close> when it is missing or does
  not parse (\<open>readExisting\<close> returns null), otherwise the \<open>ScanResult\<close> it holds. The
  function returns its result and the snapshot it has written.
\<close>

definition writeOutputJson ::
  "members ScanResult \<Rightarrow> OutputWriteOptions \<Rightarrow> members ScanResult option
     \<Rightarrow> OutputWriteResult \<times> members ScanResult option" where
  "writeOutputJson data options disk =
     (let outputDir = path_join (options_rootDir options) OUTPUT_DIR;
          outPath = path_join outputDir OUTPUT_FILE;
          plain = (\<lparr>outputPath = outPath, wroteFile = True,
                     endpointsWritten = length (endpoints data), endpointsUnchanged = 0\<rparr>,
                   Some data)
      in if incremental options = Some True then
           (case disk of
              None \<Rightarrow> plain
            | Some existing \<Rightarrow>
                (let existingMap =
                       Map_of_entries
                         (map (\<lambda>endpoint. (endpointKey endpoint, normalizeForCompare endpoint))
                            (endpoints existing))
                 in case reconcile existingMap (endpoints data) [] 0 of
                      (nextEndpoints, unchanged) \<Rightarrow>
                        (\<lparr>outputPath = outPath, wroteFile = True,
                          endpointsWritten = length nextEndpoints,
                          endpointsUnchanged = unchanged\<rparr>,
                         Some (data\<lparr>endpoints := nextEndpoints\<rparr>))))
         else plain)"

text \<open>
  The objects that the extraction loops build, as this module sees them: the members of
  the object literal in its order, where a property that is undefined is not printed and
  \<open>NaN\<close> is printed as null. \<open>scan_objects\<close> is the result of a scan with its endpoints
  as these objects.
\<close>

definition ParameterType_text :: "ParameterType \<Rightarrow> string" where
  "ParameterType_text t =
     (case t of TString \<Rightarrow> ''string'' | TNumber \<Rightarrow> ''number'' | TBoolean \<Rightarrow> ''boolean''
      | TObject \<Rightarrow> ''object'' | TArray \<Rightarrow> ''array'' | TUnknown \<Rightarrow> ''unknown'')"

definition param_json :: "ParameterInfo \<Rightarrow> json" where
  "param_json p =
     JObject [(jstr ''name'', JString (jstr (name p))),
              (jstr ''type'', JString (jstr (ParameterType_text (ptype p)))),
              (jstr ''required'', JBool (required p))]"

definition number_json :: "number \<Rightarrow> json" where
  "number_json n = (case n of NaN \<Rightarrow> JNull | Num q \<Rightarrow> JNumber q)"

definition response_json :: "ResponseExample option \<Rightarrow> json" where
  "response_json r =
     (case r of
        None \<Rightarrow> JNull
      | Some e \<Rightarrow> JObject [(jstr ''status'', number_json (status e)),
                           (jstr ''example'', example e)])"

definition optional :: "string \<Rightarrow> ('a \<Rightarrow> json) \<Rightarrow> 'a option \<Rightarrow> members" where
  "optional key f v = (case v of None \<Rightarrow> [] | Some x \<Rightarrow> [(jstr key, f x)])"

definition endpoint_members :: "EndpointInfo \<Rightarrow> members" where
  "endpoint_members e =
     [(jstr ''method'', JString (jstr (method e))), (jstr ''path'', JString (jstr (path e)))]
     @ optional ''description'' (\<lambda>d. JString (jstr d)) (description e)
     @ [(jstr ''parameters'', JArray (map param_json (parameters e)))]
     @ optional ''requestBodySchema'' (\<lambda>v. v) (requestBodySchema e)
     @ optional ''response'' response_json (response e)
     @ optional ''framework'' (\<lambda>s. JString (jstr s)) (framework e)
     @ optional ''sourceFile'' (\<lambda>s. JString (jstr s)) (sourceFile e)
     @ optional ''line'' (\<lambda>n. JNumber (of_nat n)) (line e)"

definition scan_objects :: "EndpointInfo ScanResult \<Rightarrow> members ScanResult" where
  "scan_objects r =
     \<lparr>scannedAt = scannedAt r, rootDir = rootDir r,
      endpoints = map endpoint_members (endpoints r), warnings = warnings r\<rparr>"

section \<open>Rules to evaluate the model\<close>

text \<open>
  The equations that compute the model on a concrete input, for the simplifier. The
  weak congruence rules make it evaluate a condition or a scrutinee before the branches.
\<close>

lemmas ev_bool = simp_thms if_True if_False de_Morgan_conj de_Morgan_disj not_not
lemmas ev_nat = nat.inject nat.distinct diff_Suc_Suc diff_zero diff_0_eq_0
  Suc_less_eq not_less0 zero_less_Suc less_Suc0 Suc_le_mono le0 not_less_eq_eq
  numeral_eq_one_iff one_eq_numeral_iff numeral_eq_iff num.inject num.distinct

lemmas ev_data = option.case prod.case sum.case list.case option.inject option.distinct
  prod.inject fst_conv snd_conv sum.inject sum.distinct option.map list.inject list.distinct
  char.inject
lemmas ev_list = append.simps take_Suc_Cons take_0 take.simps(1) drop_0 drop_Suc_Cons drop.simps(1)
  list.size(3,4) rev.simps last.simps list.map filter.simps dropWhile.simps takeWhile.simps
  foldl.simps concat.simps list.set insert_iff empty_iff map_of.simps append_Nil2
  fun_upd_apply
lemmas ev_string = is_digit_Char is_space_Char is_word_Char ascii_letter_def latin_letter_def
  upper_char.simps lower_char.simps toUpperCase_def toLowerCase_def trim_def startsWith.simps
  endsWith_def String_includes.simps String_split.simps String_join.simps
lemmas ev_regex = in_class.simps word_before_def word_after_def run.simps search.simps seek.simps
  RegExp.simps RegExpMatch.simps group_def RegExp_exec_def RegExp_test_def Let_def
  Str.simps Seqs.simps Alts.simps Plus_def match_loop.simps String_match_def String_replace_def
lemmas ev_index = HTTP_METHODS_def quotes_def ROUTE_METHOD_REGEX_def FASTIFY_ROUTE_REGEX_def
  NEST_DECORATOR_REGEX_def PARAM_JSDOC_REGEX_def annotation_end_def RESPONSE_EXAMPLE_REGEX_def
  REQUEST_SCHEMA_REGEX_def COMMENT_BLOCK_REGEX_def LINE_DECORATION_REGEX_def
  EXPRESS_MARKER_REGEX_def FASTIFY_MARKER_REGEX_def CONTROLLER_MARKER_REGEX_def
  RegexState.simps initial_state_def extractDocBlock_def Doc.simps param_loop.simps
  nl_def parseDocBlock_def EndpointInfo.simps ParameterInfo.simps ResponseExample.simps
  extractExpressRoutes_loop.simps extractExpressRoutes_def
  extractFastifyRoutes_loop.simps extractFastifyRoutes_def
  extractNestRoutes_loop.simps extractNestRoutes_def
  express_match_def fastify_match_def nestjs_match_def createDefaultPlugins_def
  FrameworkPlugin.simps filter_plugins.simps warning_text_def run_plugins.simps scan_files.simps
  scanBackendProject_def ScanResult.simps map_sum.simps id_apply
lemmas ev = ev_bool ev_nat ev_data ev_list ev_string ev_regex ev_index

lemmas ev_json = json_ws_def skip_ws_def is_control.simps unescape_def parse_chars.simps
  set_member.simps parse_value.simps parse_elements.simps parse_members.simps JSON_parse_def
  plus_nat.simps jstr_def codeunit.inject codeunit.distinct codeunit.case those.simps
  array_index_def own_members_def sort_key_simps insort_key.simps

lemmas ev_cong = if_weak_cong option.case_cong_weak list.case_cong_weak prod.case_cong_weak
  sum.case_cong_weak let_weak_cong

section \<open>Lemmas\<close>

subsection \<open>Strings\<close>

lemma startsWith_iff: "startsWith s p \<longleftrightarrow> (\<exists>v. s = p @ v)"
  by (induction s p rule: startsWith.induct) auto

lemma String_includes_iff: "String_includes s sub \<longleftrightarrow> (\<exists>u v. s = u @ sub @ v)"
proof (induction s)
  case Nil
  then show ?case by (auto simp: startsWith_iff)
next
  case (Cons c cs)
  show ?case
  proof
    assume "String_includes (c # cs) sub"
    then consider "startsWith (c # cs) sub" | "String_includes cs sub" by auto
    then show "\<exists>u v. c # cs = u @ sub @ v"
    proof cases
      case 1
      then obtain v where "c # cs = sub @ v" by (auto simp: startsWith_iff)
      then have "c # cs = [] @ sub @ v" by simp
      then show ?thesis by blast
    next
      case 2
      with Cons obtain u v where "cs = u @ sub @ v" by auto
      then have "c # cs = (c # u) @ sub @ v" by simp
      then show ?thesis by blast
    qed
  next
    assume "\<exists>u v. c # cs = u @ sub @ v"
    then obtain u v where uv: "c # cs = u @ sub @ v" by auto
    show "String_includes (c # cs) sub"
    proof (cases u)
      case Nil
      with uv have "startsWith (c # cs) sub" unfolding startsWith_iff by auto
      then show ?thesis by simp
    next
      case (Cons a u')
      with uv have "cs = u' @ sub @ v" by simp
      with Cons.IH show ?thesis by auto
    qed
  qed
qed

subsection \<open>The JSON parser\<close>

text \<open>
  Every successful call of the parser consumes at least one character, and the result of
  a call does not depend on the bound once the bound exceeds twice the length of the
  text: \<open>JSON_parse\<close> returns \<open>None\<close> only for a text that is not JSON.
\<close>

lemma length_skip_ws: "length (skip_ws s) \<le> length s"
  by (simp add: skip_ws_def length_dropWhile_le)

lemma skip_ws_Cons: "skip_ws s = c # r \<Longrightarrow> length r < length s"
  using length_skip_ws [of s] by simp

lemma parse_chars_shorter: "parse_chars cs = Some (s, r) \<Longrightarrow> length r < length cs"
proof (induction cs arbitrary: s r rule: parse_chars.induct)
  case 1
  then show ?case by simp
next
  case (2 c cs)
  show ?case
  proof (cases "c = CHR 0x22")
    case True
    with "2.prems" show ?thesis by simp
  next
    case nq: False
    show ?thesis
    proof (cases "c = CHR 0x5C")
      case False
      with nq "2.prems" "2.IH"(3) show ?thesis
        by (fastforce split: if_splits option.splits)
    next
      case True
      show ?thesis
      proof (cases cs)
        case Nil
        with nq True "2.prems" show ?thesis by simp
      next
        case (Cons e cs')
        show ?thesis
        proof (cases "e = CHR ''u''")
          case False
          with nq True Cons "2.prems" "2.IH"(2) [OF nq True Cons False] show ?thesis
            by (fastforce split: option.splits)
        next
          case u: True
          with nq True Cons "2.prems" "2.IH"(1) [OF nq True Cons u] show ?thesis
            by (fastforce split: option.splits list.splits)
        qed
      qed
    qed
  qed
qed

lemma parse_fraction_le: "parse_fraction cs = Some (fp, r) \<Longrightarrow> length r \<le> length cs"
proof (cases cs)
  case Nil
  assume "parse_fraction cs = Some (fp, r)"
  with Nil show ?thesis by (simp add: parse_fraction_def)
next
  case (Cons c t)
  assume "parse_fraction cs = Some (fp, r)"
  with Cons have "r = cs \<or> r = dropWhile is_digit t"
    by (auto simp: parse_fraction_def Let_def split: if_splits)
  with Cons show ?thesis
    using length_dropWhile_le [of is_digit t] by auto
qed

lemma parse_exponent_le: "parse_exponent cs = Some (ex, r) \<Longrightarrow> length r \<le> length cs"
proof (cases cs)
  case Nil
  assume "parse_exponent cs = Some (ex, r)"
  with Nil show ?thesis by (simp add: parse_exponent_def)
next
  case (Cons c t)
  assume a: "parse_exponent cs = Some (ex, r)"
  show ?thesis
  proof (cases t)
    case Nil
    with a Cons show ?thesis
      by (auto simp: parse_exponent_def Let_def split: if_splits)
  next
    case t: (Cons d t')
    with a Cons have "r = cs \<or> r = dropWhile is_digit t \<or> r = dropWhile is_digit t'"
      by (auto simp: parse_exponent_def Let_def split: if_splits)
    with Cons t show ?thesis
      using length_dropWhile_le [of is_digit t] length_dropWhile_le [of is_digit t'] by auto
  qed
qed

lemma dropWhile_shorter: "takeWhile P xs \<noteq> [] \<Longrightarrow> length (dropWhile P xs) < length xs"
  by (cases xs) (auto simp: length_dropWhile_le less_Suc_eq_le split: if_splits)

lemma parse_number_shorter: "parse_number cs = Some (v, r) \<Longrightarrow> length r < length cs"
proof -
  assume a: "parse_number cs = Some (v, r)"
  define cs1 where "cs1 = (if (case cs of [] \<Rightarrow> False | c # r \<Rightarrow> c = CHR ''-'') then tl cs else cs)"
  from a have ip: "takeWhile is_digit cs1 \<noteq> []"
    by (auto simp: parse_number_def Let_def cs1_def split: if_splits)
  then have d: "length (dropWhile is_digit cs1) < length cs1"
    by (rule dropWhile_shorter)
  have c1: "length cs1 \<le> length cs" by (simp add: cs1_def)
  from a ip obtain fp cs2 ex where
    f: "parse_fraction (dropWhile is_digit cs1) = Some (fp, cs2)"
    and e: "parse_exponent cs2 = Some (ex, r)"
    by (auto simp: parse_number_def Let_def cs1_def [symmetric] split: if_splits option.splits)
  from parse_fraction_le [OF f] parse_exponent_le [OF e] d c1 show ?thesis by linarith
qed

lemma parse_shorter:
  "(\<forall>cs v r. parse_value n cs = Some (v, r) \<longrightarrow> length r < length cs) \<and>
   (\<forall>cs acc vs r. parse_elements n cs acc = Some (vs, r) \<longrightarrow> length r < length cs) \<and>
   (\<forall>cs acc ms r. parse_members n cs acc = Some (ms, r) \<longrightarrow> length r < length cs)"
proof (induction n)
  case 0
  show ?case by simp
next
  case (Suc n)
  have V: "\<And>cs v r. parse_value n cs = Some (v, r) \<Longrightarrow> length r < length cs"
    and E: "\<And>cs acc vs r. parse_elements n cs acc = Some (vs, r) \<Longrightarrow> length r < length cs"
    and M: "\<And>cs acc ms r. parse_members n cs acc = Some (ms, r) \<Longrightarrow> length r < length cs"
    using Suc by blast+
  show ?case
  proof (intro conjI allI impI)
    fix cs v r
    assume a: "parse_value (Suc n) cs = Some (v, r)"
    then obtain c t where sk: "skip_ws cs = c # t"
      by (auto split: list.splits)
    note l = skip_ws_Cons [OF sk]
    consider (obj) "c = CHR ''{''" | (arr) "c \<noteq> CHR ''{''" "c = CHR ''[''"
      | (str) "c \<noteq> CHR ''{''" "c \<noteq> CHR ''[''" "c = CHR 0x22"
      | (lit) "c \<noteq> CHR ''{''" "c \<noteq> CHR ''[''" "c \<noteq> CHR 0x22"
      by blast
    then show "length r < length cs"
    proof cases
      case obj
      with a sk obtain d r' where sk2: "skip_ws t = d # r'"
        by (auto split: list.splits)
      note l2 = skip_ws_Cons [OF sk2]
      show ?thesis
      proof (cases "d = CHR ''}''")
        case True
        with a sk obj sk2 l l2 show ?thesis by auto
      next
        case False
        with a sk obj sk2 obtain ms where "parse_members n (d # r') [] = Some (ms, r)"
          by (auto split: option.splits)
        from M [OF this] l l2 show ?thesis by simp
      qed
    next
      case arr
      with a sk obtain d r' where sk2: "skip_ws t = d # r'"
        by (auto split: list.splits)
      note l2 = skip_ws_Cons [OF sk2]
      show ?thesis
      proof (cases "d = CHR '']''")
        case True
        with a sk arr sk2 l l2 show ?thesis by auto
      next
        case False
        with a sk arr sk2 obtain vs where "parse_elements n (d # r') [] = Some (vs, r)"
          by (auto split: option.splits)
        from E [OF this] l l2 show ?thesis by simp
      qed
    next
      case str
      with a sk obtain s where "parse_chars t = Some (s, r)"
        by (auto split: option.splits)
      from parse_chars_shorter [OF this] l show ?thesis by simp
    next
      case lit
      with a sk have "r = drop 4 (c # t) \<or> r = drop 5 (c # t) \<or> parse_number (c # t) = Some (v, r)"
        by (auto split: if_splits)
      then show ?thesis
        using l by (auto dest: parse_number_shorter)
    qed
  next
    fix cs acc vs r
    assume a: "parse_elements (Suc n) cs acc = Some (vs, r)"
    then obtain v r0 where pv: "parse_value n cs = Some (v, r0)"
      by (auto split: option.splits)
    with a obtain c r' where sk: "skip_ws r0 = c # r'"
      by (auto split: list.splits)
    from a pv sk have "r = r' \<or> parse_elements n r' (acc @ [v]) = Some (vs, r)"
      by (auto split: if_splits)
    then show "length r < length cs"
      using V [OF pv] skip_ws_Cons [OF sk] by (auto dest: E)
  next
    fix cs acc ms r
    assume a: "parse_members (Suc n) cs acc = Some (ms, r)"
    then obtain q t where sk: "skip_ws cs = q # t"
      by (auto split: list.splits)
    with a obtain k r1 where pc: "parse_chars t = Some (k, r1)"
      by (auto split: option.splits if_splits)
    with a sk obtain c r2 where sk1: "skip_ws r1 = c # r2"
      by (auto split: list.splits if_splits)
    with a sk pc obtain v r3 where pv: "parse_value n r2 = Some (v, r3)"
      by (auto split: option.splits if_splits)
    with a sk pc sk1 obtain d r4 where sk3: "skip_ws r3 = d # r4"
      by (auto split: list.splits if_splits)
    from a sk pc sk1 pv sk3
    have "r = r4 \<or> parse_members n r4 (set_member k v acc) = Some (ms, r)"
      by (auto split: if_splits)
    then show "length r < length cs"
      using skip_ws_Cons [OF sk] parse_chars_shorter [OF pc] skip_ws_Cons [OF sk1]
        V [OF pv] skip_ws_Cons [OF sk3]
      by (auto dest: M)
  qed
qed

lemma parse_value_shorter: "parse_value n cs = Some (v, r) \<Longrightarrow> length r < length cs"
  using parse_shorter [of n] by blast

lemma parse_fuel:
  "(\<forall>m cs. 2 * length cs < n \<and> 2 * length cs < m \<longrightarrow> parse_value n cs = parse_value m cs) \<and>
   (\<forall>m cs acc. 2 * length cs + 1 < n \<and> 2 * length cs + 1 < m \<longrightarrow>
      parse_elements n cs acc = parse_elements m cs acc) \<and>
   (\<forall>m cs acc. 2 * length cs + 1 < n \<and> 2 * length cs + 1 < m \<longrightarrow>
      parse_members n cs acc = parse_members m cs acc)"
proof (induction n)
  case 0
  show ?case by simp
next
  case (Suc n)
  have V: "\<And>m cs. 2 * length cs < n \<Longrightarrow> 2 * length cs < m \<Longrightarrow>
             parse_value n cs = parse_value m cs"
    and E: "\<And>m cs acc. 2 * length cs + 1 < n \<Longrightarrow> 2 * length cs + 1 < m \<Longrightarrow>
             parse_elements n cs acc = parse_elements m cs acc"
    and M: "\<And>m cs acc. 2 * length cs + 1 < n \<Longrightarrow> 2 * length cs + 1 < m \<Longrightarrow>
             parse_members n cs acc = parse_members m cs acc"
    using Suc by blast+
  show ?case
  proof (intro conjI allI impI)
    fix m and cs :: string
    assume "2 * length cs < Suc n \<and> 2 * length cs < m"
    then obtain m' where m: "m = Suc m'" and n: "2 * length cs \<le> n" and m': "2 * length cs \<le> m'"
      by (cases m) auto
    show "parse_value (Suc n) cs = parse_value m cs"
    proof (cases "skip_ws cs")
      case Nil
      then show ?thesis
        by (simp only: m parse_value.simps list.case)
    next
      case (Cons c t)
      note l = skip_ws_Cons [OF Cons]
      show ?thesis
      proof (cases "skip_ws t")
        case Nil
        then show ?thesis
          by (simp only: m parse_value.simps Cons list.case)
      next
        case sk2: (Cons d r')
        from length_skip_ws [of t] sk2 l n m'
        have b: "2 * length (d # r') + 1 < n" "2 * length (d # r') + 1 < m'"
          by simp_all
        have eq: "parse_elements n (d # r') [] = parse_elements m' (d # r') []"
          "parse_members n (d # r') [] = parse_members m' (d # r') []"
          using E [OF b] M [OF b] by simp_all
        show ?thesis
          by (simp only: m parse_value.simps Cons sk2 list.case eq)
      qed
    qed
  next
    fix m and cs :: string and acc :: "json list"
    assume "2 * length cs + 1 < Suc n \<and> 2 * length cs + 1 < m"
    then obtain m' where m: "m = Suc m'" and n: "2 * length cs < n" and m': "2 * length cs < m'"
      by (cases m) auto
    have pv: "parse_value n cs = parse_value m' cs"
      by (rule V [OF n m'])
    show "parse_elements (Suc n) cs acc = parse_elements m cs acc"
    proof (cases "parse_value n cs")
      case None
      with pv have "parse_value m' cs = None" by simp
      with None show ?thesis
        by (simp only: m parse_elements.simps option.case)
    next
      case (Some p)
      obtain v r where p: "p = (v, r)" by (cases p)
      from Some p have pn: "parse_value n cs = Some (v, r)" by simp
      with pv have pm: "parse_value m' cs = Some (v, r)" by simp
      note l = parse_value_shorter [OF pn]
      show ?thesis
      proof (cases "skip_ws r")
        case Nil
        then show ?thesis
          by (simp only: m parse_elements.simps pn pm option.case prod.case list.case)
      next
        case (Cons c r')
        from skip_ws_Cons [OF Cons] l n m'
        have b: "2 * length r' + 1 < n" "2 * length r' + 1 < m'"
          by simp_all
        have eq: "parse_elements n r' (acc @ [v]) = parse_elements m' r' (acc @ [v])"
          by (rule E [OF b])
        show ?thesis
          by (simp only: m parse_elements.simps pn pm option.case prod.case Cons list.case eq)
      qed
    qed
  next
    fix m and cs :: string and acc :: "(jstring \<times> json) list"
    assume "2 * length cs + 1 < Suc n \<and> 2 * length cs + 1 < m"
    then obtain m' where m: "m = Suc m'" and n: "2 * length cs < n" and m': "2 * length cs < m'"
      by (cases m) auto
    show "parse_members (Suc n) cs acc = parse_members m cs acc"
    proof (cases "skip_ws cs")
      case Nil
      then show ?thesis
        by (simp only: m parse_members.simps list.case)
    next
      case sk: (Cons q t)
      note l = skip_ws_Cons [OF sk]
      show ?thesis
      proof (cases "parse_chars t")
        case None
        then show ?thesis
          by (simp only: m parse_members.simps sk list.case option.case)
      next
        case (Some p)
        obtain k r1 where p: "p = (k, r1)" by (cases p)
        from Some p have pc: "parse_chars t = Some (k, r1)" by simp
        note l1 = parse_chars_shorter [OF pc]
        show ?thesis
        proof (cases "skip_ws r1")
          case Nil
          then show ?thesis
            by (simp only: m parse_members.simps sk list.case pc option.case prod.case)
        next
          case sk1: (Cons c r2)
          note l2 = skip_ws_Cons [OF sk1]
          from l l1 l2 n m' have b: "2 * length r2 < n" "2 * length r2 < m'"
            by simp_all
          have pv: "parse_value n r2 = parse_value m' r2"
            by (rule V [OF b])
          show ?thesis
          proof (cases "parse_value n r2")
            case None
            with pv have "parse_value m' r2 = None" by simp
            with None show ?thesis
              by (simp only: m parse_members.simps sk list.case pc option.case prod.case sk1)
          next
            case pr: (Some p')
            obtain v r3 where p': "p' = (v, r3)" by (cases p')
            from pr p' have pn: "parse_value n r2 = Some (v, r3)" by simp
            with pv have pm: "parse_value m' r2 = Some (v, r3)" by simp
            note l3 = parse_value_shorter [OF pn]
            show ?thesis
            proof (cases "skip_ws r3")
              case Nil
              then show ?thesis
                by (simp only: m parse_members.simps sk list.case pc option.case prod.case sk1
                    pn pm)
            next
              case sk3: (Cons d r4)
              from skip_ws_Cons [OF sk3] l l1 l2 l3 n m'
              have b: "2 * length r4 + 1 < n" "2 * length r4 + 1 < m'"
                by simp_all
              have eq: "parse_members n r4 (set_member k v acc) =
                        parse_members m' r4 (set_member k v acc)"
                by (rule M [OF b])
              show ?thesis
                by (simp only: m parse_members.simps sk list.case pc option.case prod.case sk1
                    pn pm sk3 eq)
            qed
          qed
        qed
      qed
    qed
  qed
qed

lemma JSON_parse_fuel:
  "2 * length s < n \<Longrightarrow>
   JSON_parse s = (case parse_value n s of
                     None \<Rightarrow> None
                   | Some (v, r) \<Rightarrow> if skip_ws r = [] then Some v else None)"
proof -
  assume "2 * length s < n"
  with parse_fuel [of "Suc (length s + length s)"]
  have "parse_value (Suc (length s + length s)) s = parse_value n s"
    by simp
  then show ?thesis by (simp add: JSON_parse_def)
qed

subsection \<open>The annotation parser\<close>

lemma param_loop_preserves_annotations:
  "param_loop block params st = (ps, st') \<Longrightarrow>
     RESPONSE_EXAMPLE_lastIndex st' = RESPONSE_EXAMPLE_lastIndex st \<and>
     REQUEST_SCHEMA_lastIndex st' = REQUEST_SCHEMA_lastIndex st"
proof (induction block params st arbitrary: ps st' rule: param_loop.induct)
  case (1 block params st)
  show ?case
  proof (cases "RegExp_exec PARAM_JSDOC_REGEX block (PARAM_JSDOC_lastIndex st)")
    case (Pair mo li)
    show ?thesis
    proof (cases mo)
      case None
      with Pair "1.prems" show ?thesis
        by (subst (asm) param_loop.simps) auto
    next
      case (Some m)
      from "1.prems" Pair Some "1.IH"(1) [OF Pair [symmetric] Some refl refl]
           "1.IH"(2) [OF Pair [symmetric] Some refl refl]
      show ?thesis
        by (subst (asm) param_loop.simps) (auto simp: Let_def split: if_splits)
    qed
  qed
qed

lemma group_mandatory:
  assumes "RegExp_exec re s li = (Some m, li')" and "global re" and "n \<in> mandatory (source re)"
  shows "\<exists>g. group m n = Some g"
proof -
  from RegExp_exec_bounds(5) [OF assms(1,2)] assms(3) have "n \<in> fst ` set (groups m)" by auto
  then show ?thesis
    by (cases "map_of (groups m) n") (auto simp: group_def map_of_eq_None_iff)
qed

lemma annotation_groups:
  "2 \<in> mandatory (source RESPONSE_EXAMPLE_REGEX)" "1 \<in> mandatory (source REQUEST_SCHEMA_REGEX)"
  by (simp_all add: RESPONSE_EXAMPLE_REGEX_def REQUEST_SCHEMA_REGEX_def Plus_def annotation_end_def)

text \<open>What \<open>parseDocBlock\<close> makes of a match of each annotation.\<close>

definition response_of :: "RegExpMatch option \<Rightarrow> ResponseExample option" where
  "response_of rm =
     (case rm of
        None \<Rightarrow> None
      | Some m \<Rightarrow>
          (case group m 2 of
             None \<Rightarrow> None
           | Some g \<Rightarrow>
               Some \<lparr>status = Number (group m 1),
                     example = (case JSON_parse (trim g) of
                                  Some v \<Rightarrow> v
                                | None \<Rightarrow> JString (jstr (trim g)))\<rparr>))"

definition schema_of :: "RegExpMatch option \<Rightarrow> json" where
  "schema_of qm =
     (case qm of
        None \<Rightarrow> JNull
      | Some m \<Rightarrow>
          (case group m 1 of
             None \<Rightarrow> JNull
           | Some g \<Rightarrow>
               (case JSON_parse (trim g) of
                  Some v \<Rightarrow> v
                | None \<Rightarrow> JObject [(jstr ''schema'', JString (jstr (trim g)))])))"

lemma parseDocBlock_Some:
  assumes "b \<noteq> []"
    and "RegExp_exec RESPONSE_EXAMPLE_REGEX b (RESPONSE_EXAMPLE_lastIndex st) = (rm, li2)"
    and "RegExp_exec REQUEST_SCHEMA_REGEX b (REQUEST_SCHEMA_lastIndex st) = (qm, li3)"
  shows "\<exists>d. parseDocBlock (Some b) st =
           (Inr \<lparr>doc_description = d, doc_params = fst (param_loop b [] st),
                 doc_requestBodySchema = schema_of qm, doc_response = response_of rm\<rparr>,
            (snd (param_loop b [] st))\<lparr>RESPONSE_EXAMPLE_lastIndex := li2,
                                       REQUEST_SCHEMA_lastIndex := li3\<rparr>)"
proof -
  obtain ps st1 where pl: "param_loop b [] st = (ps, st1)"
    by (cases "param_loop b [] st")
  from param_loop_preserves_annotations [OF pl]
  have r: "RESPONSE_EXAMPLE_lastIndex st1 = RESPONSE_EXAMPLE_lastIndex st"
    and q: "REQUEST_SCHEMA_lastIndex st1 = REQUEST_SCHEMA_lastIndex st" by auto
  have g2: "\<exists>g. group m 2 = Some g" if "rm = Some m" for m
    using group_mandatory [OF assms(2) [unfolded that]] annotation_groups regex_facts by blast
  have g1: "\<exists>g. group m 1 = Some g" if "qm = Some m" for m
    using group_mandatory [OF assms(3) [unfolded that]] annotation_groups regex_facts by blast
  show ?thesis
  proof (cases rm)
    case None
    show ?thesis
    proof (cases qm)
      case None
      with \<open>rm = None\<close> assms pl r q show ?thesis
        by (simp add: parseDocBlock_def Let_def response_of_def schema_of_def)
    next
      case (Some m)
      with g1 obtain g where "group m 1 = Some g" by blast
      with Some \<open>rm = None\<close> assms pl r q show ?thesis
        by (simp add: parseDocBlock_def Let_def response_of_def schema_of_def)
    qed
  next
    case (Some m2)
    with g2 obtain g' where g': "group m2 2 = Some g'" by blast
    show ?thesis
    proof (cases qm)
      case None
      with Some g' assms pl r q show ?thesis
        by (simp add: parseDocBlock_def Let_def response_of_def schema_of_def)
    next
      case (Some m)
      with g1 obtain g where "group m 1 = Some g" by blast
      with Some \<open>rm = Some m2\<close> g' assms pl r q show ?thesis
        by (simp add: parseDocBlock_def Let_def response_of_def schema_of_def)
    qed
  qed
qed

lemma parseDocBlock_total: "\<exists>doc st'. parseDocBlock block st = (Inr doc, st')"
proof (cases block)
  case None
  then show ?thesis by (simp add: parseDocBlock_def)
next
  case (Some b)
  show ?thesis
  proof (cases "b = []")
    case True
    with Some show ?thesis by (simp add: parseDocBlock_def)
  next
    case False
    obtain rm li2 where
      "RegExp_exec RESPONSE_EXAMPLE_REGEX b (RESPONSE_EXAMPLE_lastIndex st) = (rm, li2)"
      by (cases "RegExp_exec RESPONSE_EXAMPLE_REGEX b (RESPONSE_EXAMPLE_lastIndex st)")
    moreover obtain qm li3 where
      "RegExp_exec REQUEST_SCHEMA_REGEX b (REQUEST_SCHEMA_lastIndex st) = (qm, li3)"
      by (cases "RegExp_exec REQUEST_SCHEMA_REGEX b (REQUEST_SCHEMA_lastIndex st)")
    ultimately show ?thesis
      using parseDocBlock_Some [OF False] Some by blast
  qed
qed

subsection \<open>The extraction loops and the scan\<close>

text \<open>
  An endpoint as the extraction loops build it: a supported method, and the four
  documentation fields taken from \<open>parseDocBlock\<close> of the block located before some
  offset of the content.
\<close>

definition built_from :: "string \<Rightarrow> EndpointInfo \<Rightarrow> bool" where
  "built_from content e \<longleftrightarrow>
     method e \<in> set HTTP_METHODS \<and>
     (\<exists>i s doc s'. parseDocBlock (extractDocBlock content i) s = (Inr doc, s') \<and>
        description e = doc_description doc \<and> parameters e = doc_params doc \<and>
        requestBodySchema e = Some (doc_requestBodySchema doc) \<and>
        response e = Some (doc_response doc))"

declare extractExpressRoutes_loop.simps [simp del]
  extractFastifyRoutes_loop.simps [simp del]
  extractNestRoutes_loop.simps [simp del]
  param_loop.simps [simp del]
  match_loop.simps [simp del]

lemma express_loop_result:
  "\<exists>res st'. extractExpressRoutes_loop f c eps st = (Inr res, st') \<and>
     (\<forall>e \<in> set res. e \<in> set eps \<or> built_from c e)"
proof (induction "Suc (length c) - ROUTE_METHOD_lastIndex st" arbitrary: eps st rule: less_induct)
  case less
  obtain mo li where ex: "RegExp_exec ROUTE_METHOD_REGEX c (ROUTE_METHOD_lastIndex st) = (mo, li)"
    by (cases "RegExp_exec ROUTE_METHOD_REGEX c (ROUTE_METHOD_lastIndex st)")
  show ?case
  proof (cases mo)
    case None
    with ex show ?thesis by (subst extractExpressRoutes_loop.simps) simp
  next
    case (Some m)
    let ?st1 = "st\<lparr>ROUTE_METHOD_lastIndex := li\<rparr>"
    let ?routePath = "case group m 2 of None \<Rightarrow> [] | Some p \<Rightarrow> p"
    from exec_progress [of m li ROUTE_METHOD_REGEX c "ROUTE_METHOD_lastIndex st"] ex Some
    have dec: "Suc (length c) - li < Suc (length c) - ROUTE_METHOD_lastIndex st"
      by (simp add: regex_facts)
    then have dec1: "Suc (length c) - ROUTE_METHOD_lastIndex ?st1
                       < Suc (length c) - ROUTE_METHOD_lastIndex st" by simp
    have step: "extractExpressRoutes_loop f c eps st =
        (case map_option toUpperCase (group m 1) of
           None \<Rightarrow> extractExpressRoutes_loop f c eps ?st1
         | Some meth \<Rightarrow>
             if meth \<notin> set HTTP_METHODS \<or> ?routePath = []
             then extractExpressRoutes_loop f c eps ?st1
             else
               (case parseDocBlock (extractDocBlock c (index m)) ?st1 of
                  (Inl err, st2) \<Rightarrow> (Inl err, st2)
                | (Inr doc, st2) \<Rightarrow>
                    extractExpressRoutes_loop f c
                      (eps @ [\<lparr>method = meth, path = ?routePath,
                               description = doc_description doc,
                               parameters = doc_params doc,
                               requestBodySchema = Some (doc_requestBodySchema doc),
                               response = Some (doc_response doc),
                               framework = Some ''express'',
                               sourceFile = Some f, line = None\<rparr>])
                      st2))"
      by (subst extractExpressRoutes_loop.simps) (simp only: ex Some prod.case option.case Let_def)
    show ?thesis
    proof (cases "map_option toUpperCase (group m 1)")
      case None
      with less.hyps [OF dec1, of eps] show ?thesis
        by (simp only: step option.case)
    next
      case meth: (Some meth)
      show ?thesis
      proof (cases "meth \<notin> set HTTP_METHODS \<or> ?routePath = []")
        case True
        with less.hyps [OF dec1, of eps] show ?thesis
          by (simp only: step meth option.case if_True simp_thms)
      next
        case False
        obtain doc st2 where
          pd: "parseDocBlock (extractDocBlock c (index m)) ?st1 = (Inr doc, st2)"
          using parseDocBlock_total by blast
        let ?ep = "\<lparr>method = meth, path = ?routePath, description = doc_description doc,
                     parameters = doc_params doc,
                     requestBodySchema = Some (doc_requestBodySchema doc),
                     response = Some (doc_response doc), framework = Some ''express'',
                     sourceFile = Some f, line = None\<rparr>"
        from parseDocBlock_preserves(1) [OF pd] dec
        have dec2: "Suc (length c) - ROUTE_METHOD_lastIndex st2
                      < Suc (length c) - ROUTE_METHOD_lastIndex st" by simp
        from False have "method ?ep \<in> set HTTP_METHODS" by simp
        with pd have b: "built_from c ?ep"
          unfolding built_from_def by (intro conjI exI [of _ "index m"] exI [of _ ?st1]
            exI [of _ doc] exI [of _ st2]) simp_all
        have "extractExpressRoutes_loop f c eps st
                = extractExpressRoutes_loop f c (eps @ [?ep]) st2"
          using False by (simp only: step meth option.case if_False pd prod.case sum.case simp_thms)
        with less.hyps [OF dec2, of "eps @ [?ep]"] b show ?thesis by auto
      qed
    qed
  qed
qed

lemma fastify_loop_result:
  "\<exists>res st'. extractFastifyRoutes_loop f c eps st = (Inr res, st') \<and>
     (\<forall>e \<in> set res. e \<in> set eps \<or> built_from c e)"
proof (induction "Suc (length c) - FASTIFY_ROUTE_lastIndex st" arbitrary: eps st rule: less_induct)
  case less
  obtain mo li where ex: "RegExp_exec FASTIFY_ROUTE_REGEX c (FASTIFY_ROUTE_lastIndex st) = (mo, li)"
    by (cases "RegExp_exec FASTIFY_ROUTE_REGEX c (FASTIFY_ROUTE_lastIndex st)")
  show ?case
  proof (cases mo)
    case None
    with ex show ?thesis by (subst extractFastifyRoutes_loop.simps) simp
  next
    case (Some m)
    let ?st1 = "st\<lparr>FASTIFY_ROUTE_lastIndex := li\<rparr>"
    let ?routePath = "case group m 2 of None \<Rightarrow> [] | Some p \<Rightarrow> p"
    from exec_progress [of m li FASTIFY_ROUTE_REGEX c "FASTIFY_ROUTE_lastIndex st"] ex Some
    have dec: "Suc (length c) - li < Suc (length c) - FASTIFY_ROUTE_lastIndex st"
      by (simp add: regex_facts)
    then have dec1: "Suc (length c) - FASTIFY_ROUTE_lastIndex ?st1
                       < Suc (length c) - FASTIFY_ROUTE_lastIndex st" by simp
    have step: "extractFastifyRoutes_loop f c eps st =
        (case map_option toUpperCase (group m 1) of
           None \<Rightarrow> extractFastifyRoutes_loop f c eps ?st1
         | Some meth \<Rightarrow>
             if meth \<notin> set HTTP_METHODS \<or> ?routePath = []
             then extractFastifyRoutes_loop f c eps ?st1
             else
               (case parseDocBlock (extractDocBlock c (index m)) ?st1 of
                  (Inl err, st2) \<Rightarrow> (Inl err, st2)
                | (Inr doc, st2) \<Rightarrow>
                    extractFastifyRoutes_loop f c
                      (eps @ [\<lparr>method = meth, path = ?routePath,
                               description = doc_description doc,
                               parameters = doc_params doc,
                               requestBodySchema = Some (doc_requestBodySchema doc),
                               response = Some (doc_response doc),
                               framework = Some ''fastify'',
                               sourceFile = Some f, line = None\<rparr>])
                      st2))"
      by (subst extractFastifyRoutes_loop.simps) (simp only: ex Some prod.case option.case Let_def)
    show ?thesis
    proof (cases "map_option toUpperCase (group m 1)")
      case None
      with less.hyps [OF dec1, of eps] show ?thesis
        by (simp only: step option.case)
    next
      case meth: (Some meth)
      show ?thesis
      proof (cases "meth \<notin> set HTTP_METHODS \<or> ?routePath = []")
        case True
        with less.hyps [OF dec1, of eps] show ?thesis
          by (simp only: step meth option.case if_True simp_thms)
      next
        case False
        obtain doc st2 where
          pd: "parseDocBlock (extractDocBlock c (index m)) ?st1 = (Inr doc, st2)"
          using parseDocBlock_total by blast
        let ?ep = "\<lparr>method = meth, path = ?routePath, description = doc_description doc,
                     parameters = doc_params doc,
                     requestBodySchema = Some (doc_requestBodySchema doc),
                     response = Some (doc_response doc), framework = Some ''fastify'',
                     sourceFile = Some f, line = None\<rparr>"
        from parseDocBlock_preserves(2) [OF pd] dec
        have dec2: "Suc (length c) - FASTIFY_ROUTE_lastIndex st2
                      < Suc (length c) - FASTIFY_ROUTE_lastIndex st" by simp
        from False have "method ?ep \<in> set HTTP_METHODS" by simp
        with pd have b: "built_from c ?ep"
          unfolding built_from_def by (intro conjI exI [of _ "index m"] exI [of _ ?st1]
            exI [of _ doc] exI [of _ st2]) simp_all
        have "extractFastifyRoutes_loop f c eps st
                = extractFastifyRoutes_loop f c (eps @ [?ep]) st2"
          using False by (simp only: step meth option.case if_False pd prod.case sum.case simp_thms)
        with less.hyps [OF dec2, of "eps @ [?ep]"] b show ?thesis by auto
      qed
    qed
  qed
qed

lemma nest_loop_result:
  "\<exists>res st'. extractNestRoutes_loop f c eps st = (Inr res, st') \<and>
     (\<forall>e \<in> set res. e \<in> set eps \<or> built_from c e)"
proof (induction "Suc (length c) - NEST_DECORATOR_lastIndex st" arbitrary: eps st rule: less_induct)
  case less
  obtain mo li where ex: "RegExp_exec NEST_DECORATOR_REGEX c (NEST_DECORATOR_lastIndex st) = (mo, li)"
    by (cases "RegExp_exec NEST_DECORATOR_REGEX c (NEST_DECORATOR_lastIndex st)")
  show ?case
  proof (cases mo)
    case None
    with ex show ?thesis by (subst extractNestRoutes_loop.simps) simp
  next
    case (Some m)
    let ?st1 = "st\<lparr>NEST_DECORATOR_lastIndex := li\<rparr>"
    let ?routePath = "case group m 2 of None \<Rightarrow> [] | Some p \<Rightarrow> p"
    from exec_progress [of m li NEST_DECORATOR_REGEX c "NEST_DECORATOR_lastIndex st"] ex Some
    have dec: "Suc (length c) - li < Suc (length c) - NEST_DECORATOR_lastIndex st"
      by (simp add: regex_facts)
    then have dec1: "Suc (length c) - NEST_DECORATOR_lastIndex ?st1
                       < Suc (length c) - NEST_DECORATOR_lastIndex st" by simp
    have step: "extractNestRoutes_loop f c eps st =
        (case map_option toUpperCase (group m 1) of
           None \<Rightarrow> extractNestRoutes_loop f c eps ?st1
         | Some meth \<Rightarrow>
             if meth \<notin> set HTTP_METHODS
             then extractNestRoutes_loop f c eps ?st1
             else
               (case parseDocBlock (extractDocBlock c (index m)) ?st1 of
                  (Inl err, st2) \<Rightarrow> (Inl err, st2)
                | (Inr doc, st2) \<Rightarrow>
                    extractNestRoutes_loop f c
                      (eps @ [\<lparr>method = meth, path = (if ?routePath = [] then ''/'' else ?routePath),
                               description = doc_description doc,
                               parameters = doc_params doc,
                               requestBodySchema = Some (doc_requestBodySchema doc),
                               response = Some (doc_response doc),
                               framework = Some ''nestjs'',
                               sourceFile = Some f, line = None\<rparr>])
                      st2))"
      by (subst extractNestRoutes_loop.simps) (simp only: ex Some prod.case option.case Let_def)
    show ?thesis
    proof (cases "map_option toUpperCase (group m 1)")
      case None
      with less.hyps [OF dec1, of eps] show ?thesis
        by (simp only: step option.case)
    next
      case meth: (Some meth)
      show ?thesis
      proof (cases "meth \<notin> set HTTP_METHODS")
        case True
        with less.hyps [OF dec1, of eps] show ?thesis
          by (simp only: step meth option.case if_True simp_thms)
      next
        case False
        obtain doc st2 where
          pd: "parseDocBlock (extractDocBlock c (index m)) ?st1 = (Inr doc, st2)"
          using parseDocBlock_total by blast
        let ?ep = "\<lparr>method = meth, path = (if ?routePath = [] then ''/'' else ?routePath), description = doc_description doc,
                     parameters = doc_params doc,
                     requestBodySchema = Some (doc_requestBodySchema doc),
                     response = Some (doc_response doc), framework = Some ''nestjs'',
                     sourceFile = Some f, line = None\<rparr>"
        from parseDocBlock_preserves(3) [OF pd] dec
        have dec2: "Suc (length c) - NEST_DECORATOR_lastIndex st2
                      < Suc (length c) - NEST_DECORATOR_lastIndex st" by simp
        from False have "method ?ep \<in> set HTTP_METHODS" by simp
        with pd have b: "built_from c ?ep"
          unfolding built_from_def by (intro conjI exI [of _ "index m"] exI [of _ ?st1]
            exI [of _ doc] exI [of _ st2]) simp_all
        have "extractNestRoutes_loop f c eps st
                = extractNestRoutes_loop f c (eps @ [?ep]) st2"
          using False by (simp only: step meth option.case if_False pd prod.case sum.case simp_thms)
        with less.hyps [OF dec2, of "eps @ [?ep]"] b show ?thesis by auto
      qed
    qed
  qed
qed

lemma builtin_extract_result:
  assumes "p \<in> set createDefaultPlugins"
  shows "\<exists>eps st'. plugin_extract p f c st = (Inr eps, st') \<and> (\<forall>e \<in> set eps. built_from c e)"
proof -
  from assms consider "plugin_extract p = extractExpressRoutes"
    | "plugin_extract p = extractFastifyRoutes" | "plugin_extract p = extractNestRoutes"
    by (auto simp: createDefaultPlugins_def)
  then show ?thesis
  proof cases
    case 1
    with express_loop_result [of f c "[]" st] show ?thesis
      by (simp add: extractExpressRoutes_def)
  next
    case 2
    with fastify_loop_result [of f c "[]" st] show ?thesis
      by (simp add: extractFastifyRoutes_def)
  next
    case 3
    with nest_loop_result [of f c "[]" st] show ?thesis
      by (simp add: extractNestRoutes_def)
  qed
qed

lemma filter_plugins_subset:
  "filter_plugins ps f c st = (Inr ms, st') \<Longrightarrow> set ms \<subseteq> set ps"
proof (induction ps arbitrary: ms st st')
  case Nil
  then show ?case by simp
next
  case (Cons a ps)
  obtain r st1 where m: "plugin_match a f c st = (r, st1)"
    by (cases "plugin_match a f c st")
  obtain r2 st2 where r: "filter_plugins ps f c st1 = (r2, st2)"
    by (cases "filter_plugins ps f c st1")
  show ?case
  proof (cases r)
    case (Inl err)
    with Cons.prems m show ?thesis by simp
  next
    case (Inr b)
    show ?thesis
    proof (cases r2)
      case (Inl err)
      with Cons.prems m r Inr show ?thesis by simp
    next
      case ms': (Inr ms')
      with Cons.prems m r Inr have "ms = (if b then a # ms' else ms')" by simp
      with Cons.IH [OF r [unfolded ms']] show ?thesis by auto
    qed
  qed
qed

lemma filter_plugins_total:
  assumes "\<And>p s. p \<in> set ps \<Longrightarrow> \<exists>b s'. plugin_match p f c s = (Inr b, s')"
  shows "\<exists>ms st'. filter_plugins ps f c st = (Inr ms, st')"
  using assms
proof (induction ps arbitrary: st)
  case Nil
  show ?case by simp
next
  case (Cons a ps)
  from Cons.prems [of a st] obtain b st1 where m: "plugin_match a f c st = (Inr b, st1)"
    by auto
  from Cons.IH [of st1] Cons.prems obtain ms st2 where
    "filter_plugins ps f c st1 = (Inr ms, st2)" by auto
  with m show ?case by simp
qed

lemma builtin_match:
  assumes "p \<in> set createDefaultPlugins"
  shows "\<exists>b s'. plugin_match p f c s = (Inr b, s')"
proof -
  from assms consider "plugin_match p = express_match"
    | "plugin_match p = fastify_match" | "plugin_match p = nestjs_match"
    by (auto simp: createDefaultPlugins_def)
  then show ?thesis
    by cases (auto simp: express_match_def fastify_match_def nestjs_match_def split: prod.splits)
qed

lemma run_plugins_all:
  assumes "\<And>p s r s'. p \<in> set ms \<Longrightarrow> plugin_extract p f c s = (Inr r, s') \<Longrightarrow> \<forall>e \<in> set r. P e"
    and "run_plugins ms f c eps ws st = (eps', ws', st')" and "\<forall>e \<in> set eps. P e"
  shows "\<forall>e \<in> set eps'. P e"
  using assms
proof (induction ms arbitrary: eps ws st)
  case Nil
  then show ?case by simp
next
  case (Cons p ms)
  obtain r s1 where x: "plugin_extract p f c st = (r, s1)" by (cases "plugin_extract p f c st")
  show ?case
  proof (cases r)
    case (Inl err)
    with x Cons.prems(2) have "run_plugins ms f c eps (ws @ [warning_text f (plugin_name p)]) s1
                                 = (eps', ws', st')" by simp
    moreover have "\<forall>e \<in> set r. P e"
      if "q \<in> set ms" and "plugin_extract q f c s = (Inr r, s')" for q s r s'
      using Cons.prems(1) [of q s r s'] that by simp
    ultimately show ?thesis
      using Cons.IH [of eps "ws @ [warning_text f (plugin_name p)]" s1] Cons.prems(3) by blast
  next
    case (Inr extracted)
    with x Cons.prems(2) have run: "run_plugins ms f c (eps @ extracted) ws s1 = (eps', ws', st')"
      by simp
    from Cons.prems(1) [of p st extracted s1] x Inr Cons.prems(3)
    have "\<forall>e \<in> set (eps @ extracted). P e" by auto
    moreover have "\<forall>e \<in> set r. P e"
      if "q \<in> set ms" and "plugin_extract q f c s = (Inr r, s')" for q s r s'
      using Cons.prems(1) [of q s r s'] that by simp
    ultimately show ?thesis
      using Cons.IH [of "eps @ extracted" ws s1] run by blast
  qed
qed

lemma scan_files_all:
  assumes "\<And>p f c s r s'. p \<in> set ps \<Longrightarrow> plugin_extract p f c s = (Inr r, s') \<Longrightarrow> \<forall>e \<in> set r. P e"
    and "\<And>p f c s. p \<in> set ps \<Longrightarrow> \<exists>b s'. plugin_match p f c s = (Inr b, s')"
    and "\<forall>e \<in> set eps. P e"
  shows "\<exists>eps' ws' st'. scan_files ps files eps ws st = (Inr (eps', ws'), st') \<and>
           (\<forall>e \<in> set eps'. P e)"
  using assms(3)
proof (induction files arbitrary: eps ws st)
  case Nil
  then show ?case by simp
next
  case (Cons fc files)
  obtain f c where fc: "fc = (f, c)" by (cases fc)
  from filter_plugins_total [of ps f c st] assms(2) obtain ms st1 where
    fp: "filter_plugins ps f c st = (Inr ms, st1)" by blast
  show ?case
  proof (cases "ms = []")
    case True
    with fc fp have "scan_files ps (fc # files) eps ws st = scan_files ps files eps ws st1"
      by simp
    with Cons.IH [OF Cons.prems, of ws st1] show ?thesis by simp
  next
    case False
    obtain eps1 ws1 st2 where rp: "run_plugins ms f c eps ws st1 = (eps1, ws1, st2)"
      by (cases "run_plugins ms f c eps ws st1") auto
    with fc fp False
    have sf: "scan_files ps (fc # files) eps ws st = scan_files ps files eps1 ws1 st2"
      by simp
    have "\<forall>e \<in> set eps1. P e"
    proof (rule run_plugins_all [OF _ rp Cons.prems])
      fix p s r s'
      assume "p \<in> set ms" and "plugin_extract p f c s = (Inr r, s')"
      with filter_plugins_subset [OF fp] assms(1) show "\<forall>e \<in> set r. P e" by blast
    qed
    from Cons.IH [OF this, of ws1 st2] sf show ?thesis by simp
  qed
qed

lemma scan_builtin_all:
  assumes "\<And>c e. built_from c e \<Longrightarrow> P e"
  shows "\<exists>r. fst (scanBackendProject dir now createDefaultPlugins files st) = Inr r \<and>
           (\<forall>e \<in> set (endpoints r). P e)"
proof -
  have "\<exists>eps ws st'. scan_files createDefaultPlugins files [] [] st = (Inr (eps, ws), st') \<and>
          (\<forall>e \<in> set eps. P e)"
  proof (rule scan_files_all)
    fix p :: "RegexState FrameworkPlugin" and f c s r s'
    assume "p \<in> set createDefaultPlugins" and "plugin_extract p f c s = (Inr r, s')"
    with builtin_extract_result [of p f c s] assms show "\<forall>e \<in> set r. P e" by auto
  next
    fix p :: "RegexState FrameworkPlugin" and f c s
    assume "p \<in> set createDefaultPlugins"
    then show "\<exists>b s'. plugin_match p f c s = (Inr b, s')" by (rule builtin_match)
  qed simp
  then show ?thesis by (auto simp: scanBackendProject_def)
qed

subsection \<open>The declarations of a file\<close>

text \<open>
  The matches of a global expression in a text, in order: the match found from an index,
  then those found from its end on (a match that does not advance ends the list).
\<close>

function all_matches :: "RegExp \<Rightarrow> string \<Rightarrow> nat \<Rightarrow> RegExpMatch list" where
  "all_matches re s li =
     (case RegExp_exec re s li of
        (None, li') \<Rightarrow> []
      | (Some m, li') \<Rightarrow>
          if li < li' \<and> li' \<le> length s then m # all_matches re s li' else [m])"
  by pat_completeness auto
termination
  by (relation "measure (\<lambda>(re, s, li). length s - li)") auto

declare all_matches.simps [simp del]

text \<open>
  The declarations that an extraction loop accepts: the matches of its pattern whose
  first group is one of the four methods in upper case and, for the fluent and the
  object-literal style, whose path is not empty.
\<close>

definition accepted :: "bool \<Rightarrow> RegExpMatch \<Rightarrow> bool" where
  "accepted needs_path m =
     (case map_option toUpperCase (group m 1) of
        None \<Rightarrow> False
      | Some meth \<Rightarrow>
          meth \<in> set HTTP_METHODS \<and>
          (if needs_path then (case group m 2 of None \<Rightarrow> [] | Some p \<Rightarrow> p) \<noteq> [] else True))"

definition declarations :: "RegExp \<Rightarrow> bool \<Rightarrow> string \<Rightarrow> nat \<Rightarrow> RegExpMatch list" where
  "declarations re needs_path c li = filter (accepted needs_path) (all_matches re c li)"

text \<open>
  An endpoint built for a declaration: its method is the first group in upper case, and
  its four documentation fields are those of \<open>parseDocBlock\<close> of the block located
  before the declaration.
\<close>

definition built_for :: "string \<Rightarrow> EndpointInfo \<Rightarrow> RegExpMatch \<Rightarrow> bool" where
  "built_for content e m \<longleftrightarrow>
     map_option toUpperCase (group m 1) = Some (method e) \<and>
     (\<exists>s doc s'. parseDocBlock (extractDocBlock content (index m)) s = (Inr doc, s') \<and>
        description e = doc_description doc \<and> parameters e = doc_params doc \<and>
        requestBodySchema e = Some (doc_requestBodySchema doc) \<and>
        response e = Some (doc_response doc))"

lemma all_matches_step:
  assumes "RegExp_exec re c li = (Some m, li')" and "global re" and "0 < minlen (source re)"
  shows "all_matches re c li = m # all_matches re c li'"
proof -
  from RegExp_exec_bounds [OF assms(1,2)] assms(3) have "li < li' \<and> li' \<le> length c" by simp
  with assms(1) show ?thesis by (subst all_matches.simps) simp
qed

lemma all_matches_none:
  "RegExp_exec re c li = (None, li') \<Longrightarrow> all_matches re c li = []"
  by (subst all_matches.simps) simp

lemma extractExpressRoutes_loop_declarations:
  "\<exists>res st'. extractExpressRoutes_loop f c eps st = (Inr (eps @ res), st') \<and>
     list_all2 (built_for c) res (declarations ROUTE_METHOD_REGEX True c (ROUTE_METHOD_lastIndex st))"
proof (induction "Suc (length c) - ROUTE_METHOD_lastIndex st" arbitrary: eps st rule: less_induct)
  case less
  obtain mo li where ex: "RegExp_exec ROUTE_METHOD_REGEX c (ROUTE_METHOD_lastIndex st) = (mo, li)"
    by (cases "RegExp_exec ROUTE_METHOD_REGEX c (ROUTE_METHOD_lastIndex st)")
  show ?case
  proof (cases mo)
    case None
    with ex have "extractExpressRoutes_loop f c eps st = (Inr eps, st\<lparr>ROUTE_METHOD_lastIndex := li\<rparr>)"
      by (subst extractExpressRoutes_loop.simps) simp
    moreover from ex None have "declarations ROUTE_METHOD_REGEX True c (ROUTE_METHOD_lastIndex st) = []"
      by (simp add: declarations_def all_matches_none)
    ultimately show ?thesis by simp
  next
    case (Some m)
    let ?st1 = "st\<lparr>ROUTE_METHOD_lastIndex := li\<rparr>"
    let ?routePath = "case group m 2 of None \<Rightarrow> [] | Some p \<Rightarrow> p"
    from exec_progress [of m li ROUTE_METHOD_REGEX c "ROUTE_METHOD_lastIndex st"] ex Some
    have dec: "Suc (length c) - li < Suc (length c) - ROUTE_METHOD_lastIndex st"
      by (simp add: regex_facts)
    then have dec1: "Suc (length c) - ROUTE_METHOD_lastIndex ?st1
                       < Suc (length c) - ROUTE_METHOD_lastIndex st" by simp
    from ex Some have am: "all_matches ROUTE_METHOD_REGEX c (ROUTE_METHOD_lastIndex st)
        = m # all_matches ROUTE_METHOD_REGEX c li"
      by (intro all_matches_step) (simp_all add: regex_facts)
    have step: "extractExpressRoutes_loop f c eps st =
        (case map_option toUpperCase (group m 1) of
           None \<Rightarrow> extractExpressRoutes_loop f c eps ?st1
         | Some meth \<Rightarrow>
             if meth \<notin> set HTTP_METHODS \<or> ?routePath = []
             then extractExpressRoutes_loop f c eps ?st1
             else
               (case parseDocBlock (extractDocBlock c (index m)) ?st1 of
                  (Inl err, st2) \<Rightarrow> (Inl err, st2)
                | (Inr doc, st2) \<Rightarrow>
                    extractExpressRoutes_loop f c
                      (eps @ [\<lparr>method = meth, path = ?routePath,
                               description = doc_description doc,
                               parameters = doc_params doc,
                               requestBodySchema = Some (doc_requestBodySchema doc),
                               response = Some (doc_response doc),
                               framework = Some ''express'',
                               sourceFile = Some f, line = None\<rparr>])
                      st2))"
      by (subst extractExpressRoutes_loop.simps) (simp only: ex Some prod.case option.case Let_def)
    show ?thesis
    proof (cases "map_option toUpperCase (group m 1)")
      case None
      then have "\<not> accepted True m" by (simp add: accepted_def)
      then have "declarations ROUTE_METHOD_REGEX True c (ROUTE_METHOD_lastIndex st)
                   = declarations ROUTE_METHOD_REGEX True c (ROUTE_METHOD_lastIndex ?st1)"
        by (simp add: declarations_def am)
      with less.hyps [OF dec1, of eps] None show ?thesis
        by (simp only: step option.case)
    next
      case meth: (Some meth)
      show ?thesis
      proof (cases "meth \<notin> set HTTP_METHODS \<or> ?routePath = []")
        case True
        with meth have "\<not> accepted True m" by (auto simp: accepted_def)
        then have "declarations ROUTE_METHOD_REGEX True c (ROUTE_METHOD_lastIndex st)
                     = declarations ROUTE_METHOD_REGEX True c (ROUTE_METHOD_lastIndex ?st1)"
          by (simp add: declarations_def am)
        with less.hyps [OF dec1, of eps] True show ?thesis
          by (simp only: step meth option.case if_True simp_thms)
      next
        case False
        with meth have acc: "accepted True m" by (auto simp: accepted_def)
        obtain doc st2 where
          pd: "parseDocBlock (extractDocBlock c (index m)) ?st1 = (Inr doc, st2)"
          using parseDocBlock_total by blast
        let ?ep = "\<lparr>method = meth, path = ?routePath, description = doc_description doc,
                     parameters = doc_params doc,
                     requestBodySchema = Some (doc_requestBodySchema doc),
                     response = Some (doc_response doc), framework = Some ''express'',
                     sourceFile = Some f, line = None\<rparr>"
        from parseDocBlock_preserves(1) [OF pd]
        have li2: "ROUTE_METHOD_lastIndex st2 = li" by simp
        with dec have dec2: "Suc (length c) - ROUTE_METHOD_lastIndex st2
                      < Suc (length c) - ROUTE_METHOD_lastIndex st" by simp
        from pd meth have b: "built_for c ?ep m"
          unfolding built_for_def by (intro conjI exI [of _ ?st1]
            exI [of _ doc] exI [of _ st2]) simp_all
        from acc have d: "declarations ROUTE_METHOD_REGEX True c (ROUTE_METHOD_lastIndex st)
                     = m # declarations ROUTE_METHOD_REGEX True c (ROUTE_METHOD_lastIndex st2)"
          by (simp add: declarations_def am li2)
        have eq: "extractExpressRoutes_loop f c eps st
                = extractExpressRoutes_loop f c (eps @ [?ep]) st2"
          using False by (simp only: step meth option.case if_False pd prod.case sum.case simp_thms)
        from less.hyps [OF dec2, of "eps @ [?ep]"] obtain res st' where
          r: "extractExpressRoutes_loop f c (eps @ [?ep]) st2 = (Inr ((eps @ [?ep]) @ res), st')"
          and l: "list_all2 (built_for c) res
                    (declarations ROUTE_METHOD_REGEX True c (ROUTE_METHOD_lastIndex st2))"
          by blast
        from r eq have "extractExpressRoutes_loop f c eps st = (Inr (eps @ (?ep # res)), st')" by simp
        moreover from b l d have "list_all2 (built_for c) (?ep # res)
            (declarations ROUTE_METHOD_REGEX True c (ROUTE_METHOD_lastIndex st))" by simp
        ultimately show ?thesis by blast
      qed
    qed
  qed
qed

lemma extractFastifyRoutes_loop_declarations:
  "\<exists>res st'. extractFastifyRoutes_loop f c eps st = (Inr (eps @ res), st') \<and>
     list_all2 (built_for c) res (declarations FASTIFY_ROUTE_REGEX True c (FASTIFY_ROUTE_lastIndex st))"
proof (induction "Suc (length c) - FASTIFY_ROUTE_lastIndex st" arbitrary: eps st rule: less_induct)
  case less
  obtain mo li where ex: "RegExp_exec FASTIFY_ROUTE_REGEX c (FASTIFY_ROUTE_lastIndex st) = (mo, li)"
    by (cases "RegExp_exec FASTIFY_ROUTE_REGEX c (FASTIFY_ROUTE_lastIndex st)")
  show ?case
  proof (cases mo)
    case None
    with ex have "extractFastifyRoutes_loop f c eps st = (Inr eps, st\<lparr>FASTIFY_ROUTE_lastIndex := li\<rparr>)"
      by (subst extractFastifyRoutes_loop.simps) simp
    moreover from ex None have "declarations FASTIFY_ROUTE_REGEX True c (FASTIFY_ROUTE_lastIndex st) = []"
      by (simp add: declarations_def all_matches_none)
    ultimately show ?thesis by simp
  next
    case (Some m)
    let ?st1 = "st\<lparr>FASTIFY_ROUTE_lastIndex := li\<rparr>"
    let ?routePath = "case group m 2 of None \<Rightarrow> [] | Some p \<Rightarrow> p"
    from exec_progress [of m li FASTIFY_ROUTE_REGEX c "FASTIFY_ROUTE_lastIndex st"] ex Some
    have dec: "Suc (length c) - li < Suc (length c) - FASTIFY_ROUTE_lastIndex st"
      by (simp add: regex_facts)
    then have dec1: "Suc (length c) - FASTIFY_ROUTE_lastIndex ?st1
                       < Suc (length c) - FASTIFY_ROUTE_lastIndex st" by simp
    from ex Some have am: "all_matches FASTIFY_ROUTE_REGEX c (FASTIFY_ROUTE_lastIndex st)
        = m # all_matches FASTIFY_ROUTE_REGEX c li"
      by (intro all_matches_step) (simp_all add: regex_facts)
    have step: "extractFastifyRoutes_loop f c eps st =
        (case map_option toUpperCase (group m 1) of
           None \<Rightarrow> extractFastifyRoutes_loop f c eps ?st1
         | Some meth \<Rightarrow>
             if meth \<notin> set HTTP_METHODS \<or> ?routePath = []
             then extractFastifyRoutes_loop f c eps ?st1
             else
               (case parseDocBlock (extractDocBlock c (index m)) ?st1 of
                  (Inl err, st2) \<Rightarrow> (Inl err, st2)
                | (Inr doc, st2) \<Rightarrow>
                    extractFastifyRoutes_loop f c
                      (eps @ [\<lparr>method = meth, path = ?routePath,
                               description = doc_description doc,
                               parameters = doc_params doc,
                               requestBodySchema = Some (doc_requestBodySchema doc),
                               response = Some (doc_response doc),
                               framework = Some ''fastify'',
                               sourceFile = Some f, line = None\<rparr>])
                      st2))"
      by (subst extractFastifyRoutes_loop.simps) (simp only: ex Some prod.case option.case Let_def)
    show ?thesis
    proof (cases "map_option toUpperCase (group m 1)")
      case None
      then have "\<not> accepted True m" by (simp add: accepted_def)
      then have "declarations FASTIFY_ROUTE_REGEX True c (FASTIFY_ROUTE_lastIndex st)
                   = declarations FASTIFY_ROUTE_REGEX True c (FASTIFY_ROUTE_lastIndex ?st1)"
        by (simp add: declarations_def am)
      with less.hyps [OF dec1, of eps] None show ?thesis
        by (simp only: step option.case)
    next
      case meth: (Some meth)
      show ?thesis
      proof (cases "meth \<notin> set HTTP_METHODS \<or> ?routePath = []")
        case True
        with meth have "\<not> accepted True m" by (auto simp: accepted_def)
        then have "declarations FASTIFY_ROUTE_REGEX True c (FASTIFY_ROUTE_lastIndex st)
                     = declarations FASTIFY_ROUTE_REGEX True c (FASTIFY_ROUTE_lastIndex ?st1)"
          by (simp add: declarations_def am)
        with less.hyps [OF dec1, of eps] True show ?thesis
          by (simp only: step meth option.case if_True simp_thms)
      next
        case False
        with meth have acc: "accepted True m" by (auto simp: accepted_def)
        obtain doc st2 where
          pd: "parseDocBlock (extractDocBlock c (index m)) ?st1 = (Inr doc, st2)"
          using parseDocBlock_total by blast
        let ?ep = "\<lparr>method = meth, path = ?routePath, description = doc_description doc,
                     parameters = doc_params doc,
                     requestBodySchema = Some (doc_requestBodySchema doc),
                     response = Some (doc_response doc), framework = Some ''fastify'',
                     sourceFile = Some f, line = None\<rparr>"
        from parseDocBlock_preserves(2) [OF pd]
        have li2: "FASTIFY_ROUTE_lastIndex st2 = li" by simp
        with dec have dec2: "Suc (length c) - FASTIFY_ROUTE_lastIndex st2
                      < Suc (length c) - FASTIFY_ROUTE_lastIndex st" by simp
        from pd meth have b: "built_for c ?ep m"
          unfolding built_for_def by (intro conjI exI [of _ ?st1]
            exI [of _ doc] exI [of _ st2]) simp_all
        from acc have d: "declarations FASTIFY_ROUTE_REGEX True c (FASTIFY_ROUTE_lastIndex st)
                     = m # declarations FASTIFY_ROUTE_REGEX True c (FASTIFY_ROUTE_lastIndex st2)"
          by (simp add: declarations_def am li2)
        have eq: "extractFastifyRoutes_loop f c eps st
                = extractFastifyRoutes_loop f c (eps @ [?ep]) st2"
          using False by (simp only: step meth option.case if_False pd prod.case sum.case simp_thms)
        from less.hyps [OF dec2, of "eps @ [?ep]"] obtain res st' where
          r: "extractFastifyRoutes_loop f c (eps @ [?ep]) st2 = (Inr ((eps @ [?ep]) @ res), st')"
          and l: "list_all2 (built_for c) res
                    (declarations FASTIFY_ROUTE_REGEX True c (FASTIFY_ROUTE_lastIndex st2))"
          by blast
        from r eq have "extractFastifyRoutes_loop f c eps st = (Inr (eps @ (?ep # res)), st')" by simp
        moreover from b l d have "list_all2 (built_for c) (?ep # res)
            (declarations FASTIFY_ROUTE_REGEX True c (FASTIFY_ROUTE_lastIndex st))" by simp
        ultimately show ?thesis by blast
      qed
    qed
  qed
qed

lemma extractNestRoutes_loop_declarations:
  "\<exists>res st'. extractNestRoutes_loop f c eps st = (Inr (eps @ res), st') \<and>
     list_all2 (built_for c) res (declarations NEST_DECORATOR_REGEX False c (NEST_DECORATOR_lastIndex st))"
proof (induction "Suc (length c) - NEST_DECORATOR_lastIndex st" arbitrary: eps st rule: less_induct)
  case less
  obtain mo li where ex: "RegExp_exec NEST_DECORATOR_REGEX c (NEST_DECORATOR_lastIndex st) = (mo, li)"
    by (cases "RegExp_exec NEST_DECORATOR_REGEX c (NEST_DECORATOR_lastIndex st)")
  show ?case
  proof (cases mo)
    case None
    with ex have "extractNestRoutes_loop f c eps st = (Inr eps, st\<lparr>NEST_DECORATOR_lastIndex := li\<rparr>)"
      by (subst extractNestRoutes_loop.simps) simp
    moreover from ex None have "declarations NEST_DECORATOR_REGEX False c (NEST_DECORATOR_lastIndex st) = []"
      by (simp add: declarations_def all_matches_none)
    ultimately show ?thesis by simp
  next
    case (Some m)
    let ?st1 = "st\<lparr>NEST_DECORATOR_lastIndex := li\<rparr>"
    let ?routePath = "case group m 2 of None \<Rightarrow> [] | Some p \<Rightarrow> p"
    from exec_progress [of m li NEST_DECORATOR_REGEX c "NEST_DECORATOR_lastIndex st"] ex Some
    have dec: "Suc (length c) - li < Suc (length c) - NEST_DECORATOR_lastIndex st"
      by (simp add: regex_facts)
    then have dec1: "Suc (length c) - NEST_DECORATOR_lastIndex ?st1
                       < Suc (length c) - NEST_DECORATOR_lastIndex st" by simp
    from ex Some have am: "all_matches NEST_DECORATOR_REGEX c (NEST_DECORATOR_lastIndex st)
        = m # all_matches NEST_DECORATOR_REGEX c li"
      by (intro all_matches_step) (simp_all add: regex_facts)
    have step: "extractNestRoutes_loop f c eps st =
        (case map_option toUpperCase (group m 1) of
           None \<Rightarrow> extractNestRoutes_loop f c eps ?st1
         | Some meth \<Rightarrow>
             if meth \<notin> set HTTP_METHODS
             then extractNestRoutes_loop f c eps ?st1
             else
               (case parseDocBlock (extractDocBlock c (index m)) ?st1 of
                  (Inl err, st2) \<Rightarrow> (Inl err, st2)
                | (Inr doc, st2) \<Rightarrow>
                    extractNestRoutes_loop f c
                      (eps @ [\<lparr>method = meth, path = (if ?routePath = [] then ''/'' else ?routePath),
                               description = doc_description doc,
                               parameters = doc_params doc,
                               requestBodySchema = Some (doc_requestBodySchema doc),
                               response = Some (doc_response doc),
                               framework = Some ''nestjs'',
                               sourceFile = Some f, line = None\<rparr>])
                      st2))"
      by (subst extractNestRoutes_loop.simps) (simp only: ex Some prod.case option.case Let_def)
    show ?thesis
    proof (cases "map_option toUpperCase (group m 1)")
      case None
      then have "\<not> accepted False m" by (simp add: accepted_def)
      then have "declarations NEST_DECORATOR_REGEX False c (NEST_DECORATOR_lastIndex st)
                   = declarations NEST_DECORATOR_REGEX False c (NEST_DECORATOR_lastIndex ?st1)"
        by (simp add: declarations_def am)
      with less.hyps [OF dec1, of eps] None show ?thesis
        by (simp only: step option.case)
    next
      case meth: (Some meth)
      show ?thesis
      proof (cases "meth \<notin> set HTTP_METHODS")
        case True
        with meth have "\<not> accepted False m" by (auto simp: accepted_def)
        then have "declarations NEST_DECORATOR_REGEX False c (NEST_DECORATOR_lastIndex st)
                     = declarations NEST_DECORATOR_REGEX False c (NEST_DECORATOR_lastIndex ?st1)"
          by (simp add: declarations_def am)
        with less.hyps [OF dec1, of eps] True show ?thesis
          by (simp only: step meth option.case if_True simp_thms)
      next
        case False
        with meth have acc: "accepted False m" by (auto simp: accepted_def)
        obtain doc st2 where
          pd: "parseDocBlock (extractDocBlock c (index m)) ?st1 = (Inr doc, st2)"
          using parseDocBlock_total by blast
        let ?ep = "\<lparr>method = meth, path = (if ?routePath = [] then ''/'' else ?routePath), description = doc_description doc,
                     parameters = doc_params doc,
                     requestBodySchema = Some (doc_requestBodySchema doc),
                     response = Some (doc_response doc), framework = Some ''nestjs'',
                     sourceFile = Some f, line = None\<rparr>"
        from parseDocBlock_preserves(3) [OF pd]
        have li2: "NEST_DECORATOR_lastIndex st2 = li" by simp
        with dec have dec2: "Suc (length c) - NEST_DECORATOR_lastIndex st2
                      < Suc (length c) - NEST_DECORATOR_lastIndex st" by simp
        from pd meth have b: "built_for c ?ep m"
          unfolding built_for_def by (intro conjI exI [of _ ?st1]
            exI [of _ doc] exI [of _ st2]) simp_all
        from acc have d: "declarations NEST_DECORATOR_REGEX False c (NEST_DECORATOR_lastIndex st)
                     = m # declarations NEST_DECORATOR_REGEX False c (NEST_DECORATOR_lastIndex st2)"
          by (simp add: declarations_def am li2)
        have eq: "extractNestRoutes_loop f c eps st
                = extractNestRoutes_loop f c (eps @ [?ep]) st2"
          using False by (simp only: step meth option.case if_False pd prod.case sum.case simp_thms)
        from less.hyps [OF dec2, of "eps @ [?ep]"] obtain res st' where
          r: "extractNestRoutes_loop f c (eps @ [?ep]) st2 = (Inr ((eps @ [?ep]) @ res), st')"
          and l: "list_all2 (built_for c) res
                    (declarations NEST_DECORATOR_REGEX False c (NEST_DECORATOR_lastIndex st2))"
          by blast
        from r eq have "extractNestRoutes_loop f c eps st = (Inr (eps @ (?ep # res)), st')" by simp
        moreover from b l d have "list_all2 (built_for c) (?ep # res)
            (declarations NEST_DECORATOR_REGEX False c (NEST_DECORATOR_lastIndex st))" by simp
        ultimately show ?thesis by blast
      qed
    qed
  qed
qed

subsection \<open>The members of an endpoint\<close>

lemma member_present:
  "requestBodySchema e = Some v \<Longrightarrow>
     map_of (endpoint_members e) (jstr ''requestBodySchema'') = Some v"
  "response e = Some r \<Longrightarrow>
     map_of (endpoint_members e) (jstr ''response'') = Some (response_json r)"
  "description e = None \<Longrightarrow> map_of (endpoint_members e) (jstr ''description'') = None"
  by (simp_all add: endpoint_members_def optional_def jstr_def split: option.splits)

lemma built_from_method: "built_from c e \<Longrightarrow> method e \<in> set HTTP_METHODS"
  by (simp add: built_from_def)

lemma built_from_members:
  assumes "built_from c e"
  shows "map_of (endpoint_members e) (jstr ''requestBodySchema'') \<noteq> None"
    and "map_of (endpoint_members e) (jstr ''response'') \<noteq> None"
  using assms unfolding built_from_def by (auto simp: member_present)

subsection \<open>A block without an annotation\<close>

lemma snd_seek: "snd (seek s n pv) = drop n s"
  by (induction s n pv rule: seek.induct) auto

lemma run_Str:
  "run False (Node (Str p) # ks) i pv r cs = Some res \<Longrightarrow> p \<noteq> [] \<Longrightarrow> startsWith r p"
proof (induction p arbitrary: i pv r rule: Str.induct)
  case 1
  then show ?case by simp
next
  case (2 c)
  then show ?case by (cases r) (auto split: if_splits)
next
  case (3 c d p)
  show ?case
  proof (cases r)
    case Nil
    with "3.prems" show ?thesis by simp
  next
    case (Cons a r')
    with "3.prems" have a: "a = c"
      and run: "run False (Node (Str (d # p)) # ks) (Suc i) (Some a) r' cs = Some res"
      by (auto split: if_splits)
    from "3.IH" [OF run] have "startsWith r' (d # p)" by simp
    with a Cons show ?thesis by simp
  qed
qed

lemma search_Str_None:
  assumes "\<not> String_includes r p" and "p \<noteq> []"
  shows "search False (Seq (Str p) k) i pv r = None"
  using assms(1)
proof (induction r arbitrary: i pv)
  case Nil
  have "run False [Node (Seq (Str p) k)] i pv [] [] = None"
  proof (cases "run False [Node (Seq (Str p) k)] i pv [] []")
    case (Some res)
    then have "run False (Node (Str p) # [Node k]) i pv [] [] = Some res" by simp
    from run_Str [OF this assms(2)] Nil show ?thesis by simp
  qed simp
  then show ?case by simp
next
  case (Cons a r)
  from Cons.prems have ns: "\<not> startsWith (a # r) p" and ni: "\<not> String_includes r p"
    by auto
  have "run False [Node (Seq (Str p) k)] i pv (a # r) [] = None"
  proof (cases "run False [Node (Seq (Str p) k)] i pv (a # r) []")
    case (Some res)
    then have "run False (Node (Str p) # [Node k]) i pv (a # r) [] = Some res" by simp
    from run_Str [OF this assms(2)] ns show ?thesis by simp
  qed simp
  with Cons.IH [OF ni] show ?case by simp
qed

lemma exec_absent:
  assumes "\<not> String_includes s p" and "p \<noteq> []" and "source re = Seq (Str p) k"
    and "\<not> ignoreCase re"
  shows "fst (RegExp_exec re s li) = None"
proof -
  have "\<not> String_includes (drop n s) p" for n
  proof
    assume "String_includes (drop n s) p"
    then obtain u v where "drop n s = u @ p @ v"
      unfolding String_includes_iff by blast
    then have "s = (take n s @ u) @ p @ v"
      by (metis append.assoc append_take_drop_id)
    with assms(1) show False unfolding String_includes_iff by blast
  qed
  then have none: "search False (Seq (Str p) k) i pv (drop n s) = None" for i pv n
    by (rule search_Str_None) (rule assms(2))
  define start where "start = (if global re then li else 0)"
  obtain pv r where sk: "seek s start None = (pv, r)"
    by (cases "seek s start None")
  with snd_seek [of s start None] have "r = drop start s" by simp
  with none have "search (ignoreCase re) (source re) start pv r = None"
    using assms(3,4) by simp
  with sk show ?thesis
    by (simp add: RegExp_exec_def Let_def start_def [symmetric])
qed

lemma annotation_sources:
  "\<exists>k. source REQUEST_SCHEMA_REGEX = Seq (Str ''@requestBody'') k"
  "\<exists>k. source RESPONSE_EXAMPLE_REGEX = Seq (Str ''@responseExample'') k"
  "\<not> ignoreCase REQUEST_SCHEMA_REGEX" "\<not> ignoreCase RESPONSE_EXAMPLE_REGEX"
  by (simp_all add: REQUEST_SCHEMA_REGEX_def RESPONSE_EXAMPLE_REGEX_def)

lemma parseDocBlock_absent:
  assumes "parseDocBlock block st = (Inr doc, st')"
  shows "block = None \<Longrightarrow> doc = \<lparr>doc_description = None, doc_params = [],
            doc_requestBodySchema = JNull, doc_response = None\<rparr>"
    and "block = Some b \<Longrightarrow> \<not> String_includes b ''@requestBody'' \<Longrightarrow>
            doc_requestBodySchema doc = JNull"
    and "block = Some b \<Longrightarrow> \<not> String_includes b ''@responseExample'' \<Longrightarrow>
            doc_response doc = None"
proof -
  show "block = None \<Longrightarrow> doc = \<lparr>doc_description = None, doc_params = [],
            doc_requestBodySchema = JNull, doc_response = None\<rparr>"
    using assms by (simp add: parseDocBlock_def)
  obtain rm li2 where
    r: "RegExp_exec RESPONSE_EXAMPLE_REGEX b (RESPONSE_EXAMPLE_lastIndex st) = (rm, li2)"
    by (cases "RegExp_exec RESPONSE_EXAMPLE_REGEX b (RESPONSE_EXAMPLE_lastIndex st)")
  obtain qm li3 where
    q: "RegExp_exec REQUEST_SCHEMA_REGEX b (REQUEST_SCHEMA_lastIndex st) = (qm, li3)"
    by (cases "RegExp_exec REQUEST_SCHEMA_REGEX b (REQUEST_SCHEMA_lastIndex st)")
  have d: "doc_requestBodySchema doc = schema_of qm \<and> doc_response doc = response_of rm"
    if "block = Some b" and "b \<noteq> []"
    using parseDocBlock_Some [OF that(2) r q] assms that(1) by auto
  show "doc_requestBodySchema doc = JNull"
    if "block = Some b" and "\<not> String_includes b ''@requestBody''"
  proof (cases "b = []")
    case True
    with assms that show ?thesis by (auto simp: parseDocBlock_def)
  next
    case False
    from annotation_sources(1) obtain k where
      "source REQUEST_SCHEMA_REGEX = Seq (Str ''@requestBody'') k" by blast
    from exec_absent [OF that(2) _ this annotation_sources(3), of "REQUEST_SCHEMA_lastIndex st"] q
    have "qm = None" by simp
    with d [OF that(1) False] show ?thesis by (simp add: schema_of_def)
  qed
  show "doc_response doc = None"
    if "block = Some b" and "\<not> String_includes b ''@responseExample''"
  proof (cases "b = []")
    case True
    with assms that show ?thesis by (auto simp: parseDocBlock_def)
  next
    case False
    from annotation_sources(2) obtain k where
      "source RESPONSE_EXAMPLE_REGEX = Seq (Str ''@responseExample'') k" by blast
    from exec_absent [OF that(2) _ this annotation_sources(4), of "RESPONSE_EXAMPLE_lastIndex st"] r
    have "rm = None" by simp
    with d [OF that(1) False] show ?thesis by (simp add: response_of_def)
  qed
qed

lemma built_for_fields:
  assumes "built_for c e m"
  shows "map_option toUpperCase (group m 1) = Some (method e) \<and>
     (\<exists>v w. requestBodySchema e = Some v \<and> response e = Some w \<and>
        map_of (endpoint_members e) (jstr ''requestBodySchema'') = Some v \<and>
        map_of (endpoint_members e) (jstr ''response'') = Some (response_json w)) \<and>
     (case extractDocBlock c (index m) of
        None \<Rightarrow>
          description e = None \<and> parameters e = [] \<and>
          requestBodySchema e = Some JNull \<and> response e = Some None \<and>
          map_of (endpoint_members e) (jstr ''description'') = None \<and>
          map_of (endpoint_members e) (jstr ''requestBodySchema'') = Some JNull \<and>
          map_of (endpoint_members e) (jstr ''response'') = Some JNull
      | Some b \<Rightarrow>
          (\<not> String_includes b ''@requestBody'' \<longrightarrow> requestBodySchema e = Some JNull) \<and>
          (\<not> String_includes b ''@responseExample'' \<longrightarrow> response e = Some None))"
proof -
  from assms obtain s doc s' where
    m: "map_option toUpperCase (group m 1) = Some (method e)"
    and pd: "parseDocBlock (extractDocBlock c (index m)) s = (Inr doc, s')"
    and e: "description e = doc_description doc" "parameters e = doc_params doc"
      "requestBodySchema e = Some (doc_requestBodySchema doc)" "response e = Some (doc_response doc)"
    unfolding built_for_def by blast
  note a = parseDocBlock_absent [OF pd]
  show ?thesis
  proof (cases "extractDocBlock c (index m)")
    case None
    from a(1) [OF None] e m None show ?thesis
      by (simp add: member_present response_json_def)
  next
    case (Some b)
    from a(2) [OF Some] a(3) [OF Some] e m Some show ?thesis
      by (simp add: member_present)
  qed
qed

lemma builtin_objects:
  "\<exists>r. fst (scanBackendProject dir now createDefaultPlugins files st) = Inr r \<and>
     (\<forall>obj \<in> set (endpoints (scan_objects r)).
        \<exists>v w. map_of obj (jstr ''requestBodySchema'') = Some v \<and>
              map_of obj (jstr ''response'') = Some w)"
proof -
  have "\<exists>r. fst (scanBackendProject dir now createDefaultPlugins files st) = Inr r \<and>
     (\<forall>e \<in> set (endpoints r).
        \<exists>v w. map_of (endpoint_members e) (jstr ''requestBodySchema'') = Some v \<and>
              map_of (endpoint_members e) (jstr ''response'') = Some w)"
    by (rule scan_builtin_all) (use built_from_members in blast)
  then show ?thesis by (auto simp: scan_objects_def)
qed

subsection \<open>The reconciler\<close>

lemma reconcile_eq:
  "reconcile m eps nxt u =
     (nxt @ eps,
      u + length (filter (\<lambda>e. m (endpointKey e) = Some (normalizeForCompare e)) eps))"
proof (induction eps arbitrary: nxt u)
  case Nil
  show ?case by simp
next
  case (Cons e eps)
  show ?case
    by (cases "m (endpointKey e)") (simp_all add: Let_def Cons.IH)
qed

lemma Map_of_entries_eq: "Map_of_entries es = map_of (rev es)"
proof -
  have "foldl (\<lambda>m (k, v). m(k \<mapsto> v)) m0 es = m0 ++ map_of (rev es)" for m0 :: "'a \<rightharpoonup> 'b"
  proof (induction es arbitrary: m0)
    case Nil
    show ?case by simp
  next
    case (Cons a es)
    obtain k v where a: "a = (k, v)" by (cases a)
    have "m0(k \<mapsto> v) ++ map_of (rev es) = m0 ++ map_of (rev es @ [(k, v)])"
      by (rule ext) (auto simp: map_add_def split: option.splits)
    moreover have "foldl (\<lambda>m (k, v). m(k \<mapsto> v)) m0 (a # es) =
                   foldl (\<lambda>m (k, v). m(k \<mapsto> v)) (m0(k \<mapsto> v)) es"
      by (simp add: a)
    moreover have "rev (a # es) = rev es @ [(k, v)]"
      by (simp add: a)
    ultimately show ?case
      using Cons [of "m0(k \<mapsto> v)"] by (simp only:)
  qed
  from this [of Map.empty] show ?thesis by (simp add: Map_of_entries_def)
qed

lemma writeOutputJson_snapshot:
  "snd (writeOutputJson data options disk) = Some data"
proof -
  have "data\<lparr>endpoints := endpoints data\<rparr> = data" by simp
  then show ?thesis
    by (simp add: writeOutputJson_def Let_def reconcile_eq split: option.splits)
qed

lemma map_of_rev_pairs:
  assumes "e \<in> set es"
  shows "\<exists>e' \<in> set es. f e' = f e \<and> map_of (rev (map (\<lambda>e. (f e, g e)) es)) (f e) = Some (g e')"
proof -
  let ?ps = "rev (map (\<lambda>e. (f e, g e)) es)"
  from assms have "f e \<in> fst ` set ?ps" by force
  then obtain v where v: "map_of ?ps (f e) = Some v"
    by (cases "map_of ?ps (f e)") (auto simp: map_of_eq_None_iff)
  from map_of_SomeD [OF v] obtain e' where "e' \<in> set es" "f e' = f e" "v = g e'" by auto
  with v show ?thesis by auto
qed

text \<open>
  The endpoints of a list agree on their keys when any two of them with the same key
  have the same serialised form. An endpoint is keyed by strings when its members
  \<open>method\<close> and \<open>path\<close> hold strings, as the type \<open>EndpointInfo\<close> declares.
\<close>

definition consistent_keys :: "members list \<Rightarrow> bool" where
  "consistent_keys es =
     (\<forall>e \<in> set es. \<forall>e' \<in> set es.
        endpointKey e = endpointKey e' \<longrightarrow> normalizeForCompare e = normalizeForCompare e')"

definition string_member :: "members \<Rightarrow> string \<Rightarrow> bool" where
  "string_member e k = (case map_of e (jstr k) of Some (JString s) \<Rightarrow> True | _ \<Rightarrow> False)"

definition string_keyed :: "members \<Rightarrow> bool" where
  "string_keyed e \<longleftrightarrow> string_member e ''method'' \<and> string_member e ''path''"

lemma length_filter_eq: "length (filter P xs) = length xs \<longleftrightarrow> (\<forall>x \<in> set xs. P x)"
proof
  assume "length (filter P xs) = length xs"
  then have "filter P xs = xs"
    by (metis filter_True length_filter_less less_irrefl)
  then show "\<forall>x \<in> set xs. P x" by (simp add: filter_id_conv)
next
  assume "\<forall>x \<in> set xs. P x"
  then show "length (filter P xs) = length xs" by simp
qed

lemma lookup_consistent:
  "(\<forall>e \<in> set es.
      Map_of_entries (map (\<lambda>e. (endpointKey e, normalizeForCompare e)) es) (endpointKey e)
        = Some (normalizeForCompare e))
   \<longleftrightarrow> consistent_keys es"
proof
  let ?m = "Map_of_entries (map (\<lambda>e. (endpointKey e, normalizeForCompare e)) es)"
  assume a: "\<forall>e \<in> set es. ?m (endpointKey e) = Some (normalizeForCompare e)"
  show "consistent_keys es"
    unfolding consistent_keys_def
  proof (intro ballI impI)
    fix e e'
    assume "e \<in> set es" "e' \<in> set es" "endpointKey e = endpointKey e'"
    with a have "Some (normalizeForCompare e) = Some (normalizeForCompare e')" by metis
    then show "normalizeForCompare e = normalizeForCompare e'" by simp
  qed
next
  let ?m = "Map_of_entries (map (\<lambda>e. (endpointKey e, normalizeForCompare e)) es)"
  assume c: "consistent_keys es"
  show "\<forall>e \<in> set es. ?m (endpointKey e) = Some (normalizeForCompare e)"
  proof
    fix e
    assume e: "e \<in> set es"
    from map_of_rev_pairs [OF e, of endpointKey normalizeForCompare]
    obtain e' where "e' \<in> set es" "endpointKey e' = endpointKey e"
      and "?m (endpointKey e) = Some (normalizeForCompare e')"
      by (auto simp: Map_of_entries_eq)
    with c e show "?m (endpointKey e) = Some (normalizeForCompare e)"
      unfolding consistent_keys_def by metis
  qed
qed

lemma second_write:
  "fst (writeOutputJson data \<lparr>options_rootDir = dir, incremental = Some True\<rparr>
          (snd (writeOutputJson data options disk)))
   = \<lparr>outputPath = path_join (path_join dir OUTPUT_DIR) OUTPUT_FILE, wroteFile = True,
      endpointsWritten = length (endpoints data),
      endpointsUnchanged = length (filter (\<lambda>e.
         Map_of_entries (map (\<lambda>e. (endpointKey e, normalizeForCompare e)) (endpoints data))
           (endpointKey e) = Some (normalizeForCompare e)) (endpoints data))\<rparr>"
  by (simp add: writeOutputJson_snapshot) (simp add: writeOutputJson_def Let_def reconcile_eq)

subsection \<open>The calls of a scan\<close>

text \<open>
  The calls of \<open>extract\<close> that a scan makes: for each file in order and each plugin that
  matches it in order, the file, the plugin's name and what the call returned (\<open>Inl\<close>
  when it threw), each call made in the state the calls before it left. There is no such
  list when a call of \<open>match\<close> throws.
\<close>

fun extract_outcomes :: "'s FrameworkPlugin list \<Rightarrow> string \<Rightarrow> string \<Rightarrow> 's
    \<Rightarrow> (string \<times> string \<times> (error + EndpointInfo list)) list \<times> 's" where
  "extract_outcomes [] f c st = ([], st)"
| "extract_outcomes (p # ps) f c st =
     (case plugin_extract p f c st of
        (r, st1) \<Rightarrow>
          (case extract_outcomes ps f c st1 of
             (os, st2) \<Rightarrow> ((f, plugin_name p, r) # os, st2)))"

fun scan_outcomes :: "'s FrameworkPlugin list \<Rightarrow> (string \<times> string) list \<Rightarrow> 's
    \<Rightarrow> (error + (string \<times> string \<times> (error + EndpointInfo list)) list) \<times> 's" where
  "scan_outcomes plugins [] st = (Inr [], st)"
| "scan_outcomes plugins ((f, c) # files) st =
     (case filter_plugins plugins f c st of
        (Inl err, st1) \<Rightarrow> (Inl err, st1)
      | (Inr matched, st1) \<Rightarrow>
          (case extract_outcomes matched f c st1 of
             (os, st2) \<Rightarrow>
               (case scan_outcomes plugins files st2 of
                  (Inl err, st3) \<Rightarrow> (Inl err, st3)
                | (Inr rest, st3) \<Rightarrow> (Inr (os @ rest), st3))))"

lemma run_plugins_outcomes:
  "run_plugins ms f c eps ws st =
     (eps @ concat (map (\<lambda>(f, n, r). case r of Inl e \<Rightarrow> [] | Inr es \<Rightarrow> es)
                     (fst (extract_outcomes ms f c st))),
      ws @ concat (map (\<lambda>(f, n, r). case r of Inl e \<Rightarrow> [warning_text f n] | Inr es \<Rightarrow> [])
                     (fst (extract_outcomes ms f c st))),
      snd (extract_outcomes ms f c st))"
proof (induction ms arbitrary: eps ws st)
  case Nil
  show ?case by simp
next
  case (Cons p ms)
  obtain r st1 where x: "plugin_extract p f c st = (r, st1)"
    by (cases "plugin_extract p f c st")
  obtain os st2 where o: "extract_outcomes ms f c st1 = (os, st2)"
    by (cases "extract_outcomes ms f c st1")
  show ?case
    by (cases r) (simp_all add: x o Cons.IH)
qed

lemma scan_files_outcomes:
  "scan_files plugins files eps ws st =
     (case scan_outcomes plugins files st of
        (Inl err, st') \<Rightarrow> (Inl err, st')
      | (Inr outs, st') \<Rightarrow>
          (Inr (eps @ concat (map (\<lambda>(f, n, r). case r of Inl e \<Rightarrow> [] | Inr es \<Rightarrow> es) outs),
                ws @ concat (map (\<lambda>(f, n, r). case r of Inl e \<Rightarrow> [warning_text f n]
                                                     | Inr es \<Rightarrow> []) outs)),
           st'))"
proof (induction files arbitrary: eps ws st)
  case Nil
  show ?case by simp
next
  case (Cons fc files)
  obtain f c where fc: "fc = (f, c)" by (cases fc)
  obtain fr st1 where fp: "filter_plugins plugins f c st = (fr, st1)"
    by (cases "filter_plugins plugins f c st")
  show ?case
  proof (cases fr)
    case (Inl err)
    with fc fp show ?thesis by simp
  next
    case (Inr ms)
    obtain os st2 where o: "extract_outcomes ms f c st1 = (os, st2)"
      by (cases "extract_outcomes ms f c st1")
    obtain sr st3 where s: "scan_outcomes plugins files st2 = (sr, st3)"
      by (cases "scan_outcomes plugins files st2")
    show ?thesis
    proof (cases "ms = []")
      case True
      with o have "os = []" "st2 = st1" by simp_all
      with True fc fp Inr s show ?thesis
        by (cases sr) (simp_all add: Cons.IH)
    next
      case False
      with fc fp Inr o s show ?thesis
        by (cases sr) (simp_all add: run_plugins_outcomes Cons.IH)
    qed
  qed
qed

lemma scan_result_outcomes:
  "scanBackendProject dir now plugins files st =
     (case scan_outcomes plugins files st of
        (Inl err, st') \<Rightarrow> (Inl err, st')
      | (Inr outs, st') \<Rightarrow>
          (Inr \<lparr>scannedAt = Some now, rootDir = Some dir,
                endpoints = concat (map (\<lambda>(f, n, r). case r of Inl e \<Rightarrow> [] | Inr es \<Rightarrow> es) outs),
                warnings = Some (concat (map (\<lambda>(f, n, r). case r of Inl e \<Rightarrow> [warning_text f n]
                                                               | Inr es \<Rightarrow> []) outs))\<rparr>,
           st'))"
  by (simp add: scanBackendProject_def scan_files_outcomes split: prod.splits sum.splits)

subsection \<open>Plugins without state\<close>

text \<open>
  A plugin whose callbacks are functions of the file path and the content alone, given
  by its name and the two functions.
\<close>

definition stateless_plugin ::
  "string \<times> (string \<Rightarrow> string \<Rightarrow> error + bool) \<times> (string \<Rightarrow> string \<Rightarrow> error + EndpointInfo list)
     \<Rightarrow> 's FrameworkPlugin" where
  "stateless_plugin p =
     (case p of (n, m, x) \<Rightarrow>
        \<lparr>plugin_name = n, plugin_match = (\<lambda>f c s. (m f c, s)),
         plugin_extract = (\<lambda>f c s. (x f c, s))\<rparr>)"

lemma stateless_plugin_simps:
  "plugin_name (stateless_plugin (n, m, x)) = n"
  "plugin_match (stateless_plugin (n, m, x)) f c s = (m f c, s)"
  "plugin_extract (stateless_plugin (n, m, x)) f c s = (x f c, s)"
  by (simp_all add: stateless_plugin_def)

text \<open>
  For such plugins: the errors that the calls of \<open>match\<close> throw, and the calls of
  \<open>extract\<close> with their outcome, for one file and the plugins in order.
\<close>

definition file_throws ::
  "(string \<times> (string \<Rightarrow> string \<Rightarrow> error + bool) \<times> (string \<Rightarrow> string \<Rightarrow> error + EndpointInfo list)) list
     \<Rightarrow> string \<Rightarrow> string \<Rightarrow> error list" where
  "file_throws ps f c = [e. (n, m, x) \<leftarrow> ps, Inl e \<leftarrow> [m f c]]"

definition file_calls ::
  "(string \<times> (string \<Rightarrow> string \<Rightarrow> error + bool) \<times> (string \<Rightarrow> string \<Rightarrow> error + EndpointInfo list)) list
     \<Rightarrow> string \<Rightarrow> string \<Rightarrow> (string \<times> string \<times> (error + EndpointInfo list)) list" where
  "file_calls ps f c = [(f, n, x f c). (n, m, x) \<leftarrow> ps, m f c = Inr True]"

lemma file_throws_simps:
  "file_throws [] f c = []"
  "file_throws ((n, m, x) # ps) f c =
     (case m f c of Inl e \<Rightarrow> [e] | Inr b \<Rightarrow> []) @ file_throws ps f c"
  by (simp_all add: file_throws_def split: sum.splits)

lemma file_calls_simps:
  "file_calls [] f c = []"
  "file_calls ((n, m, x) # ps) f c =
     (if m f c = Inr True then [(f, n, x f c)] else []) @ file_calls ps f c"
  by (simp_all add: file_calls_def)

lemma filter_plugins_stateless:
  "filter_plugins (map stateless_plugin ps) f c st =
     ((case file_throws ps f c of
         e # es \<Rightarrow> Inl e
       | [] \<Rightarrow> Inr (map stateless_plugin [(n, m, x) \<leftarrow> ps. m f c = Inr True])), st)"
proof (induction ps)
  case Nil
  show ?case by (simp add: file_throws_simps)
next
  case (Cons p ps)
  obtain n m x where p: "p = (n, m, x)" by (cases p)
  show ?case
  proof (cases "m f c")
    case (Inl e)
    then show ?thesis by (simp add: p stateless_plugin_simps file_throws_simps)
  next
    case (Inr b)
    show ?thesis
    proof (cases "file_throws ps f c")
      case Nil
      with Inr Cons.IH show ?thesis
        by (simp add: p stateless_plugin_simps file_throws_simps)
    next
      case (Cons e es)
      with Inr Cons.IH show ?thesis
        by (simp add: p stateless_plugin_simps file_throws_simps)
    qed
  qed
qed

lemma extract_outcomes_stateless:
  "extract_outcomes (map stateless_plugin [(n, m, x) \<leftarrow> ps. m f c = Inr True]) f c st
     = (file_calls ps f c, st)"
proof (induction ps)
  case Nil
  show ?case by (simp add: file_calls_simps)
next
  case (Cons p ps)
  obtain n m x where "p = (n, m, x)" by (cases p)
  with Cons show ?case by (simp add: stateless_plugin_simps file_calls_simps)
qed

lemma scan_outcomes_stateless:
  "scan_outcomes (map stateless_plugin ps) files st =
     ((case concat (map (\<lambda>(f, c). file_throws ps f c) files) of
         e # es \<Rightarrow> Inl e
       | [] \<Rightarrow> Inr (concat (map (\<lambda>(f, c). file_calls ps f c) files))), st)"
proof (induction files)
  case Nil
  show ?case by simp
next
  case (Cons fc files)
  obtain f c where fc: "fc = (f, c)" by (cases fc)
  let ?rest = "concat (map (\<lambda>(f, c). file_throws ps f c) files)"
  have mt: "concat (map (\<lambda>(f, c). file_throws ps f c) (fc # files)) = file_throws ps f c @ ?rest"
    by (simp add: fc)
  have ec: "concat (map (\<lambda>(f, c). file_calls ps f c) (fc # files))
              = file_calls ps f c @ concat (map (\<lambda>(f, c). file_calls ps f c) files)"
    by (simp add: fc)
  have step: "scan_outcomes (map stateless_plugin ps) (fc # files) st =
     (case filter_plugins (map stateless_plugin ps) f c st of
        (Inl err, st1) \<Rightarrow> (Inl err, st1)
      | (Inr matched, st1) \<Rightarrow>
          (case extract_outcomes matched f c st1 of
             (os, st2) \<Rightarrow>
               (case scan_outcomes (map stateless_plugin ps) files st2 of
                  (Inl err, st3) \<Rightarrow> (Inl err, st3)
                | (Inr rest, st3) \<Rightarrow> (Inr (os @ rest), st3))))"
    by (simp add: fc)
  show ?case
  proof (cases "file_throws ps f c")
    case (Cons e es)
    then show ?thesis
      by (simp only: step mt filter_plugins_stateless list.case prod.case sum.case append.simps)
  next
    case Nil
    show ?thesis
    proof (cases ?rest)
      case files: Nil
      show ?thesis
        by (simp only: step mt ec filter_plugins_stateless extract_outcomes_stateless Cons.IH
            Nil files list.case prod.case sum.case append.simps)
    next
      case files: (Cons e es)
      show ?thesis
        by (simp only: step mt ec filter_plugins_stateless extract_outcomes_stateless Cons.IH
            Nil files list.case prod.case sum.case append.simps)
    qed
  qed
qed

lemma outcome_endpoints_stateless:
  "concat (map (\<lambda>(f, n, r). case r of Inl e \<Rightarrow> [] | Inr es \<Rightarrow> es)
     (concat (map (\<lambda>(f, c). file_calls ps f c) files)))
   = concat [es. (f, c) \<leftarrow> files, (n, m, x) \<leftarrow> ps, m f c = Inr True, Inr es \<leftarrow> [x f c]]"
proof (induction files)
  case Nil
  show ?case by simp
next
  case (Cons fc files)
  obtain f c where fc: "fc = (f, c)" by (cases fc)
  have "concat (map (\<lambda>(f, n, r). case r of Inl e \<Rightarrow> [] | Inr es \<Rightarrow> es) (file_calls ps f c))
        = concat [es. (n, m, x) \<leftarrow> ps, m f c = Inr True, Inr es \<leftarrow> [x f c]]"
    by (induction ps) (auto simp: file_calls_simps split: sum.splits)
  with Cons show ?case
    by (simp add: fc)
qed

lemma outcome_warnings_stateless:
  "concat (map (\<lambda>(f, n, r). case r of Inl e \<Rightarrow> [warning_text f n] | Inr es \<Rightarrow> [])
     (concat (map (\<lambda>(f, c). file_calls ps f c) files)))
   = [warning_text f n. (f, c) \<leftarrow> files, (n, m, x) \<leftarrow> ps, m f c = Inr True, Inl e \<leftarrow> [x f c]]"
proof (induction files)
  case Nil
  show ?case by simp
next
  case (Cons fc files)
  obtain f c where fc: "fc = (f, c)" by (cases fc)
  have "concat (map (\<lambda>(f, n, r). case r of Inl e \<Rightarrow> [warning_text f n] | Inr es \<Rightarrow> [])
           (file_calls ps f c))
        = [warning_text f n. (n, m, x) \<leftarrow> ps, m f c = Inr True, Inl e \<leftarrow> [x f c]]"
    by (induction ps) (auto simp: file_calls_simps split: sum.splits)
  with Cons show ?case
    by (simp add: fc)
qed

lemma match_throws_stateless:
  "concat (map (\<lambda>(f, c). file_throws ps f c) files)
     = [e. (f, c) \<leftarrow> files, (n, m, x) \<leftarrow> ps, Inl e \<leftarrow> [m f c]]"
  by (simp add: file_throws_def)

lemma scan_result_stateless:
  "scanBackendProject dir now (map stateless_plugin ps) files st =
     ((case [e. (f, c) \<leftarrow> files, (n, m, x) \<leftarrow> ps, Inl e \<leftarrow> [m f c]] of
         e # es \<Rightarrow> Inl e
       | [] \<Rightarrow>
           Inr \<lparr>scannedAt = Some now, rootDir = Some dir,
                endpoints = concat [es. (f, c) \<leftarrow> files, (n, m, x) \<leftarrow> ps, m f c = Inr True,
                                        Inr es \<leftarrow> [x f c]],
                warnings = Some [warning_text f n.
                                   (f, c) \<leftarrow> files, (n, m, x) \<leftarrow> ps, m f c = Inr True,
                                   Inl e \<leftarrow> [x f c]]\<rparr>), st)"
proof -
  let ?t = "concat (map (\<lambda>(f, c). file_throws ps f c) files)"
  have "scanBackendProject dir now (map stateless_plugin ps) files st =
     ((case ?t of
         e # es \<Rightarrow> Inl e
       | [] \<Rightarrow>
           Inr \<lparr>scannedAt = Some now, rootDir = Some dir,
                endpoints = concat [es. (f, c) \<leftarrow> files, (n, m, x) \<leftarrow> ps, m f c = Inr True,
                                        Inr es \<leftarrow> [x f c]],
                warnings = Some [warning_text f n.
                                   (f, c) \<leftarrow> files, (n, m, x) \<leftarrow> ps, m f c = Inr True,
                                   Inl e \<leftarrow> [x f c]]\<rparr>), st)"
    unfolding scan_result_outcomes scan_outcomes_stateless
    by (cases ?t)
       (simp_all only: prod.case list.case sum.case outcome_endpoints_stateless
          outcome_warnings_stateless)
  then show ?thesis by (simp only: match_throws_stateless)
qed

subsection \<open>The keyword priority\<close>

text \<open>
  The classification in the words of the specification: the keyword classes in their
  order of priority, and the first class one of whose keywords occurs.
\<close>

definition priority_table :: "(ParameterType \<times> string list) list" where
  "priority_table =
     [(TString, [''string'']), (TNumber, [''number'', ''int'', ''float'']),
      (TBoolean, [''boolean'', ''bool'']), (TArray, [''array'']), (TObject, [''object''])]"

definition first_keyword_class :: "string \<Rightarrow> ParameterType" where
  "first_keyword_class raw =
     (case find (\<lambda>(t, ks). list_ex (String_includes (toLowerCase raw)) ks) priority_table of
        Some (t, ks) \<Rightarrow> t
      | None \<Rightarrow> TUnknown)"

section \<open>Sample inputs\<close>

text \<open>
  The files and values the claims are tried on. \<open>express_sample\<close> is the scenario of the
  specification (the documented block and \<open>get("/users", handler)\<close>) after a line that
  holds the marker of the express plugin.
\<close>

definition dq :: char where
  "dq = CHR 0x22"

definition sq :: char where
  "sq = CHR 0x27"

definition express_sample :: string where
  "express_sample = ''// express'' @ [nl]
     @ ''/** List users'' @ [nl]
     @ '' * @param {string} status'' @ [nl]
     @ '' * @responseExample 200 {'' @ [dq] @ ''users'' @ [dq] @ '':[]}'' @ [nl]
     @ '' */'' @ [nl]
     @ ''get('' @ [dq] @ ''/users'' @ [dq] @ '', handler)''"

definition nest_no_path_sample :: string where
  "nest_no_path_sample = ''@Controller()'' @ [nl] @ ''class A { @Get() list() {} }''"

definition nest_empty_path_sample :: string where
  "nest_empty_path_sample = ''@Controller()'' @ [nl] @ ''class A { @Get('' @ [sq, sq] @ '') list() {} }''"

definition nest_plain_sample :: string where
  "nest_plain_sample = ''@Controller()'' @ [nl] @ ''@Get('' @ [sq] @ ''/a'' @ [sq] @ '')''"

definition express_patch_sample :: string where
  "express_patch_sample = ''router.patch('' @ [dq] @ ''/users'' @ [dq] @ '', handler)''"

definition fastify_patch_sample :: string where
  "fastify_patch_sample = ''fastify.route({ method: '' @ [dq] @ ''PATCH'' @ [dq] @ '', url: ''
     @ [dq] @ ''/users'' @ [dq] @ '' })''"

definition nest_patch_sample :: string where
  "nest_patch_sample = ''@Controller()'' @ [nl] @ ''@Patch('' @ [sq] @ ''/a'' @ [sq] @ '')''"

definition nest_doc_sample :: string where
  "nest_doc_sample = ''@Controller()'' @ [nl] @ ''/** @responseExample 200 {} */'' @ [nl]
     @ ''@Get('' @ [sq] @ ''/a'' @ [sq] @ '')''"

lemmas samples = express_sample_def nest_doc_sample_def nest_no_path_sample_def
  nest_empty_path_sample_def nest_plain_sample_def express_patch_sample_def
  fastify_patch_sample_def nest_patch_sample_def dq_def sq_def

lemma Number_200: "Number (Some ''200'') = Num 200"
  by (simp add: Number_def digits_val_def digit_val_def is_digit_def)

lemma Number_500: "Number (Some ''500'') = Num 500"
  by (simp add: Number_def digits_val_def digit_val_def is_digit_def)

lemma t_c1a:
  "fst (scanBackendProject dir now createDefaultPlugins [(''routes.js'', express_sample)] initial_state)
    = Inr \<lparr>scannedAt = Some now, rootDir = Some dir, endpoints = [], warnings = Some []\<rparr>"
  by (simp only: samples ev ev_json cong: ev_cong)

lemma t_c1b:
  "fst (extractExpressRoutes ''routes.js'' express_sample initial_state)
    = Inr [\<lparr>method = ''GET'', path = ''/users'',
            description = Some ''/** List users /'',
            parameters = [\<lparr>name = ''status'', ptype = TString, required = True\<rparr>],
            requestBodySchema = Some JNull,
            response = Some (Some \<lparr>status = Num 200, example = JObject [(jstr ''users'', JArray [])]\<rparr>),
            framework = Some ''express'', sourceFile = Some ''routes.js'', line = None\<rparr>]"
  by (simp only: samples ev ev_json Number_200 detectParameterType_def cong: ev_cong)

lemma t_c8a:
  "fst (scanBackendProject dir now createDefaultPlugins [(''a.ts'', nest_no_path_sample)] initial_state)
    = Inr \<lparr>scannedAt = Some now, rootDir = Some dir, endpoints = [], warnings = Some []\<rparr>"
  by (simp only: samples ev ev_json cong: ev_cong)

lemma t_c8b:
  "map_sum id (\<lambda>r. map path (endpoints r))
     (fst (scanBackendProject dir now createDefaultPlugins
        [(''a.ts'', nest_empty_path_sample)] initial_state)) = Inr [''/'']"
  by (simp only: samples ev ev_json cong: ev_cong)

lemma t_c6a: "fst (extractExpressRoutes ''app.js'' express_patch_sample initial_state) = Inr []"
  by (simp only: samples ev ev_json cong: ev_cong)

lemma t_c6b: "fst (extractFastifyRoutes ''app.js'' fastify_patch_sample initial_state) = Inr []"
  by (simp only: samples ev ev_json cong: ev_cong)

lemma t_c6c: "fst (extractNestRoutes ''a.ts'' nest_patch_sample initial_state) = Inr []"
  by (simp only: samples ev ev_json cong: ev_cong)

lemma t_plain:
  "fst (extractNestRoutes ''a.ts'' nest_plain_sample initial_state)
    = Inr [\<lparr>method = ''GET'', path = ''/a'', description = None, parameters = [],
            requestBodySchema = Some JNull, response = Some None,
            framework = Some ''nestjs'', sourceFile = Some ''a.ts'', line = None\<rparr>]"
  by (simp only: samples ev ev_json cong: ev_cong)

lemma nest_scan_1:
  "map_sum id (\<lambda>r. map response (endpoints r))
     (fst (scanBackendProject dir now createDefaultPlugins
        [(''a.ts'', nest_doc_sample)] initial_state))
    = Inr [Some (Some \<lparr>status = Num 200, example = JObject []\<rparr>)]"
  by (simp only: nest_doc_sample_def dq_def sq_def ev ev_json Number_200 cong: ev_cong)

lemma nest_scan_2:
  "map_sum id (\<lambda>r. map response (endpoints r))
     (fst (scanBackendProject dir now createDefaultPlugins
        [(''a.ts'', nest_doc_sample)]
        (snd (scanBackendProject dir now createDefaultPlugins
            [(''a.ts'', nest_doc_sample)] initial_state))))
    = Inr [Some None]"
  by (simp only: nest_doc_sample_def dq_def sq_def ev ev_json Number_200 cong: ev_cong)

definition nest_two_schemas_sample :: string where
  "nest_two_schemas_sample = ''@Controller()'' @ [nl]
     @ ''/** @requestBody {oops */'' @ [nl] @ ''@Get('' @ [sq] @ ''/a'' @ [sq] @ '')'' @ [nl]
     @ ''/** @requestBody {oops */'' @ [nl] @ ''@Post('' @ [sq] @ ''/b'' @ [sq] @ '')''"

definition nest_two_examples_sample :: string where
  "nest_two_examples_sample = ''@Controller()'' @ [nl]
     @ ''/** @responseExample 500 <html> */'' @ [nl] @ ''@Get('' @ [sq] @ ''/a'' @ [sq] @ '')'' @ [nl]
     @ ''/** @responseExample 500 <html> */'' @ [nl] @ ''@Post('' @ [sq] @ ''/b'' @ [sq] @ '')''"

lemma t_c9a:
  "map_sum id (\<lambda>r. map (\<lambda>e. (method e, path e, requestBodySchema e)) (endpoints r))
     (fst (scanBackendProject dir now createDefaultPlugins
        [(''a.ts'', nest_two_schemas_sample)] initial_state))
    = Inr [(''GET'', ''/a'', Some (JObject [(jstr ''schema'', JString (jstr ''{oops''))])),
           (''POST'', ''/b'', Some JNull)]"
  by (simp only: nest_two_schemas_sample_def dq_def sq_def ev ev_json parse_number_def cong: ev_cong)

lemma t_c9b:
  "map_sum id (\<lambda>r. map (\<lambda>e. (method e, path e, response e)) (endpoints r))
     (fst (scanBackendProject dir now createDefaultPlugins
        [(''a.ts'', nest_two_examples_sample)] initial_state))
    = Inr [(''GET'', ''/a'', Some (Some \<lparr>status = Num 500, example = JString (jstr ''<html>'')\<rparr>)),
           (''POST'', ''/b'', Some None)]"
  by (simp only: nest_two_examples_sample_def dq_def sq_def ev ev_json Number_500 parse_number_def cong: ev_cong)

definition nest_later_block_sample :: string where
  "nest_later_block_sample = ''@Controller()'' @ [nl] @ ''@Get('' @ [sq] @ ''/a'' @ [sq] @ '')'' @ [nl]
     @ ''/** later */''"

definition nest_plain_block_sample :: string where
  "nest_plain_block_sample = ''@Controller()'' @ [nl] @ ''/** Plain */'' @ [nl]
     @ ''@Get('' @ [sq] @ ''/a'' @ [sq] @ '')''"

lemmas ev_objects = scan_objects_def endpoint_members_def optional_def param_json_def
  response_json_def number_json_def all_matches.simps declarations_def accepted_def

lemma t_later:
  "map_sum id (\<lambda>r. endpoints (scan_objects r))
     (fst (scanBackendProject dir now createDefaultPlugins
        [(''a.ts'', nest_later_block_sample)] initial_state))
   = Inr [[(jstr ''method'', JString (jstr ''GET'')), (jstr ''path'', JString (jstr ''/a'')),
           (jstr ''parameters'', JArray []), (jstr ''requestBodySchema'', JNull),
           (jstr ''response'', JNull), (jstr ''framework'', JString (jstr ''nestjs'')),
           (jstr ''sourceFile'', JString (jstr ''a.ts''))]]"
  by (simp only: nest_later_block_sample_def dq_def sq_def ev ev_json ev_objects cong: ev_cong)

lemma t_later_declarations:
  "map (\<lambda>m. (index m, group m 1)) (declarations NEST_DECORATOR_REGEX False nest_later_block_sample
     (NEST_DECORATOR_lastIndex initial_state)) = [(14, Some ''Get'')]"
  "map (\<lambda>m. (index m, group m 1)) (declarations NEST_DECORATOR_REGEX False nest_plain_block_sample
     (NEST_DECORATOR_lastIndex initial_state)) = [(27, Some ''Get'')]"
  by (simp_all only: nest_later_block_sample_def nest_plain_block_sample_def dq_def sq_def
      ev ev_json ev_objects cong: ev_cong)

lemma t_later_block:
  "extractDocBlock nest_later_block_sample 14 = None"
  "extractDocBlock nest_plain_block_sample 27 = Some ''/** Plain */''"
  by (simp_all only: nest_later_block_sample_def nest_plain_block_sample_def dq_def sq_def
      ev ev_json numeral_eq_Suc pred_numeral_simps BitM.simps cong: ev_cong)

lemma singleton_declaration:
  assumes "map (\<lambda>m. (index m, group m 1)) ds = [(i, g)]"
  obtains m where "ds = [m]" and "index m = i" and "group m 1 = g"
  using assms by (cases ds) auto

lemma upper_Get: "toUpperCase ''Get'' = ''GET''"
  by (simp add: toUpperCase_def ascii_letter_def latin_letter_def)

text \<open>Endpoint objects, scan results and options for \<open>writeOutputJson\<close>.\<close>

definition object_a :: members where
  "object_a = [(jstr ''method'', JString (jstr ''GET'')), (jstr ''path'', JString (jstr ''/a'')),
     (jstr ''parameters'', JArray []), (jstr ''requestBodySchema'', JNull),
     (jstr ''response'', JNull), (jstr ''framework'', JString (jstr ''express'')),
     (jstr ''sourceFile'', JString (jstr ''x.js''))]"

text \<open>The same route found in another file, and the first object with two members swapped.\<close>

definition object_a' :: members where
  "object_a' = [(jstr ''method'', JString (jstr ''GET'')), (jstr ''path'', JString (jstr ''/a'')),
     (jstr ''parameters'', JArray []), (jstr ''requestBodySchema'', JNull),
     (jstr ''response'', JNull), (jstr ''framework'', JString (jstr ''nestjs'')),
     (jstr ''sourceFile'', JString (jstr ''y.ts''))]"

definition object_a_swapped :: members where
  "object_a_swapped = [(jstr ''path'', JString (jstr ''/a'')), (jstr ''method'', JString (jstr ''GET'')),
     (jstr ''parameters'', JArray []), (jstr ''requestBodySchema'', JNull),
     (jstr ''response'', JNull), (jstr ''framework'', JString (jstr ''express'')),
     (jstr ''sourceFile'', JString (jstr ''x.js''))]"

definition object_b :: members where
  "object_b = [(jstr ''method'', JString (jstr ''GET'')), (jstr ''path'', JString (jstr ''/b'')),
     (jstr ''parameters'', JArray []), (jstr ''requestBodySchema'', JNull),
     (jstr ''response'', JNull), (jstr ''framework'', JString (jstr ''express'')),
     (jstr ''sourceFile'', JString (jstr ''x.js''))]"

definition scan_of :: "members list \<Rightarrow> members ScanResult" where
  "scan_of es = \<lparr>scannedAt = Some ''t'', rootDir = Some ''/p'', endpoints = es, warnings = Some []\<rparr>"

definition incremental_options :: OutputWriteOptions where
  "incremental_options = \<lparr>options_rootDir = ''/p'', incremental = Some True\<rparr>"

lemma sample_keys:
  "endpointKey object_a = jstr ''GET /a''" "endpointKey object_a' = jstr ''GET /a''"
  "endpointKey object_a_swapped = jstr ''GET /a''" "endpointKey object_b = jstr ''GET /b''"
  "string_keyed object_a" "string_keyed object_b"
  by (simp_all add: endpointKey_def template_text_def object_a_def object_a'_def
      object_a_swapped_def object_b_def jstr_def string_keyed_def string_member_def)

lemma sample_forms:
  "normalizeForCompare object_a \<noteq> normalizeForCompare object_a'"
  "normalizeForCompare object_a \<noteq> normalizeForCompare object_a_swapped"
  by (simp_all add: normalizeForCompare_def object_a_def object_a'_def object_a_swapped_def jstr_def)

text \<open>An endpoint for a plugin to return.\<close>

definition endpoint_a :: EndpointInfo where
  "endpoint_a = \<lparr>method = ''GET'', path = ''/a'', description = None, parameters = [],
     requestBodySchema = Some JNull, response = Some None, framework = Some ''express'',
     sourceFile = Some ''x.js'', line = None\<rparr>"

lemma t_c5:
  "fst (scanBackendProject dir now
          (map stateless_plugin
             [(''first'', \<lambda>f c. Inr (f \<noteq> ''c.js''), \<lambda>f c. Inl PluginError),
              (''second'', \<lambda>f c. Inr (f = ''b.js''), \<lambda>f c. Inr [endpoint_a])])
          [(''a.js'', ''x''), (''b.js'', ''y''), (''c.js'', ''z'')] st) =
     Inr \<lparr>scannedAt = Some now, rootDir = Some dir, endpoints = [endpoint_a],
          warnings = Some [''Failed to parse a.js with first'',
                           ''Failed to parse b.js with first'']\<rparr>"
  unfolding scan_result_stateless by (simp add: warning_text_def)

section \<open>The claims\<close>

text \<open>
  Claim C1 asks that a file with one route declaration, the plugin's marker and the
  documented block before it yields exactly one descriptor with the fields of the
  declaration and the block (description \<open>List users\<close>). The code does not do so for
  the fluent style. The applicability test of the express plugin calls \<open>test\<close> on the
  global \<open>ROUTE_METHOD_REGEX\<close>, which leaves \<open>lastIndex\<close> behind the declaration; the
  extraction starts there and finds nothing: the scan of the file has no endpoint. And
  the extraction alone, from the initial state, keeps the delimiters of the block in the
  description: \<open>/** List users /\<close>.
\<close>

theorem express_declaration_not_scanned:
  "fst (scanBackendProject dir now createDefaultPlugins [(''routes.js'', express_sample)] initial_state)
     = Inr \<lparr>scannedAt = Some now, rootDir = Some dir, endpoints = [], warnings = Some []\<rparr> \<and>
   fst (extractExpressRoutes ''routes.js'' express_sample initial_state)
     = Inr [\<lparr>method = ''GET'', path = ''/users'',
             description = Some ''/** List users /'',
             parameters = [\<lparr>name = ''status'', ptype = TString, required = True\<rparr>],
             requestBodySchema = Some JNull,
             response = Some (Some \<lparr>status = Num 200,
                                     example = JObject [(jstr ''users'', JArray [])]\<rparr>),
             framework = Some ''express'', sourceFile = Some ''routes.js'', line = None\<rparr>]"
  using t_c1a t_c1b by (rule conjI)

text \<open>
  Claim C2 asks that two scans in succession of the same files give the same endpoints.
  The code does not: \<open>parseDocBlock\<close> calls \<open>exec\<close> once on the global
  \<open>RESPONSE_EXAMPLE_REGEX\<close>, which leaves \<open>lastIndex\<close> behind the annotation; the
  second scan, started in the state the first one left, searches the same block from
  there and finds no annotation. The first scan has the response of the block, the
  second has null.
\<close>

theorem successive_scans_differ:
  "map_sum id (\<lambda>r. map response (endpoints r))
     (fst (scanBackendProject dir now createDefaultPlugins
        [(''a.ts'', nest_doc_sample)] initial_state))
     = Inr [Some (Some \<lparr>status = Num 200, example = JObject []\<rparr>)] \<and>
   map_sum id (\<lambda>r. map response (endpoints r))
     (fst (scanBackendProject dir now createDefaultPlugins
        [(''a.ts'', nest_doc_sample)]
        (snd (scanBackendProject dir now createDefaultPlugins
            [(''a.ts'', nest_doc_sample)] initial_state))))
     = Inr [Some None]"
  using nest_scan_1 nest_scan_2 by (rule conjI)

text \<open>
  Claim C3. With incremental mode on and a prior snapshot, the snapshot written is the
  new result as it was passed (every endpoint, in the same order, changed or not), and
  \<open>endpointsWritten\<close> is the number of endpoints of the new result.
\<close>

theorem writeOutputJson_incremental_complete:
  "snd (writeOutputJson data \<lparr>options_rootDir = dir, incremental = Some True\<rparr> (Some prior))
     = Some data \<and>
   endpointsWritten
     (fst (writeOutputJson data \<lparr>options_rootDir = dir, incremental = Some True\<rparr> (Some prior)))
     = length (endpoints data)"
  by (simp add: writeOutputJson_snapshot) (simp add: writeOutputJson_def Let_def reconcile_eq)

text \<open>
  Claim C4 as stated fails where two endpoints share the method and path key but are
  printed differently: the lookup keeps the serialised form of the last one, so the other
  one is not counted as unchanged. This is so for the same route found in two files, and
  for two objects with the same members in another order.
\<close>

theorem shared_key_counterexample:
  "endpointsUnchanged
     (fst (writeOutputJson (scan_of [object_a, object_a']) incremental_options
        (snd (writeOutputJson (scan_of [object_a, object_a']) incremental_options None)))) = 1 \<and>
   endpointsWritten
     (fst (writeOutputJson (scan_of [object_a, object_a']) incremental_options
        (snd (writeOutputJson (scan_of [object_a, object_a']) incremental_options None)))) = 2 \<and>
   endpointsUnchanged
     (fst (writeOutputJson (scan_of [object_a, object_a_swapped]) incremental_options
        (snd (writeOutputJson (scan_of [object_a, object_a_swapped]) incremental_options None)))) = 1"
  using sample_forms
  by (simp add: incremental_options_def second_write scan_of_def Map_of_entries_eq sample_keys)

text \<open>
  Claim C4 (amended). For a result whose endpoints hold strings for \<open>method\<close> and
  \<open>path\<close>, as their type declares: persisting it and then persisting the same result in
  incremental mode writes all its endpoints, and reports all of them unchanged exactly
  when any two endpoints of the result with the same key have the same serialised form;
  otherwise it reports fewer.
\<close>

theorem incremental_round_trip:
  assumes "\<forall>e \<in> set (endpoints data). string_keyed e"
  shows "endpointsWritten
           (fst (writeOutputJson data \<lparr>options_rootDir = dir, incremental = Some True\<rparr>
                   (snd (writeOutputJson data options disk))))
           = length (endpoints data) \<and>
         (endpointsUnchanged
            (fst (writeOutputJson data \<lparr>options_rootDir = dir, incremental = Some True\<rparr>
                    (snd (writeOutputJson data options disk))))
            = length (endpoints data)
          \<longleftrightarrow> consistent_keys (endpoints data)) \<and>
         endpointsUnchanged
           (fst (writeOutputJson data \<lparr>options_rootDir = dir, incremental = Some True\<rparr>
                   (snd (writeOutputJson data options disk))))
           \<le> length (endpoints data)"
  by (simp add: second_write length_filter_eq lookup_consistent)

theorem incremental_round_trip_witness:
  "string_keyed object_a \<and> string_keyed object_b \<and>
   consistent_keys (endpoints (scan_of [object_a, object_b])) \<and>
   endpointsUnchanged
     (fst (writeOutputJson (scan_of [object_a, object_b]) incremental_options
        (snd (writeOutputJson (scan_of [object_a, object_b]) incremental_options None)))) = 2 \<and>
   endpointsWritten
     (fst (writeOutputJson (scan_of [object_a, object_b]) incremental_options
        (snd (writeOutputJson (scan_of [object_a, object_b]) incremental_options None)))) = 2"
proof -
  have k: "\<forall>e \<in> set (endpoints (scan_of [object_a, object_b])). string_keyed e"
    by (simp add: scan_of_def sample_keys)
  have c: "consistent_keys (endpoints (scan_of [object_a, object_b]))"
    by (simp add: consistent_keys_def scan_of_def sample_keys jstr_def)
  from incremental_round_trip [OF k, of "''/p''" incremental_options None] c
  show ?thesis by (simp add: incremental_options_def scan_of_def sample_keys)
qed

text \<open>
  Claim C5. The result of a scan is determined by the calls of \<open>extract\<close> it makes: the
  warnings are exactly one warning \<open>Failed to parse <file> with <plugin name>\<close> for each
  call that throws, in the order of the calls, and the endpoints are those of all the
  calls that return, also of the calls that follow one that throws. The scan has no
  result only where a call of \<open>match\<close> throws, which is not caught. For plugins whose
  callbacks are functions of the file path and the content, the calls of \<open>extract\<close> are
  those of the pairs of a file and a plugin whose \<open>match\<close> returns true, so a file that
  no plugin matches contributes no warning. In the example the first plugin throws on
  the two files it matches; the second plugin still runs on the second file, and the
  third file, which no plugin matches, has no warning.
\<close>

theorem scan_warnings_exact:
  "scanBackendProject dir now plugins files st =
     (case scan_outcomes plugins files st of
        (Inl err, st') \<Rightarrow> (Inl err, st')
      | (Inr outs, st') \<Rightarrow>
          (Inr \<lparr>scannedAt = Some now, rootDir = Some dir,
                endpoints = concat (map (\<lambda>(f, n, r). case r of Inl e \<Rightarrow> [] | Inr es \<Rightarrow> es) outs),
                warnings = Some (concat (map (\<lambda>(f, n, r). case r of
                                     Inl e \<Rightarrow> [''Failed to parse '' @ f @ '' with '' @ n]
                                   | Inr es \<Rightarrow> []) outs))\<rparr>,
           st')) \<and>
   scanBackendProject dir now (map stateless_plugin ps) files st' =
     ((case [e. (f, c) \<leftarrow> files, (n, m, x) \<leftarrow> ps, Inl e \<leftarrow> [m f c]] of
         e # es \<Rightarrow> Inl e
       | [] \<Rightarrow>
           Inr \<lparr>scannedAt = Some now, rootDir = Some dir,
                endpoints = concat [es. (f, c) \<leftarrow> files, (n, m, x) \<leftarrow> ps, m f c = Inr True,
                                        Inr es \<leftarrow> [x f c]],
                warnings = Some [''Failed to parse '' @ f @ '' with '' @ n.
                                   (f, c) \<leftarrow> files, (n, m, x) \<leftarrow> ps, m f c = Inr True,
                                   Inl e \<leftarrow> [x f c]]\<rparr>), st') \<and>
   fst (scanBackendProject dir now
          (map stateless_plugin
             [(''first'', \<lambda>f c. Inr (f \<noteq> ''c.js''), \<lambda>f c. Inl PluginError),
              (''second'', \<lambda>f c. Inr (f = ''b.js''), \<lambda>f c. Inr [endpoint_a])])
          [(''a.js'', ''x''), (''b.js'', ''y''), (''c.js'', ''z'')] st') =
     Inr \<lparr>scannedAt = Some now, rootDir = Some dir, endpoints = [endpoint_a],
          warnings = Some [''Failed to parse a.js with first'',
                           ''Failed to parse b.js with first'']\<rparr>"
  using scan_result_outcomes [of dir now plugins files st]
    scan_result_stateless [of dir now ps files st'] t_c5 [of dir now st']
  unfolding warning_text_def by (intro conjI)

text \<open>
  Claim C6. Every endpoint that a built-in plugin's extraction returns, for every file,
  content and state of the module, has one of the four methods of \<open>HTTP_METHODS\<close>; so
  has every endpoint of a scan with the built-in plugins, which always returns. The
  extraction always returns. A PATCH declaration gives no endpoint, in each of the three
  styles.
\<close>

theorem builtin_methods_supported:
  "(\<forall>p \<in> set createDefaultPlugins.
      \<exists>eps st'. plugin_extract p f c st = (Inr eps, st') \<and>
        (\<forall>e \<in> set eps. method e \<in> set HTTP_METHODS)) \<and>
   (\<exists>r. fst (scanBackendProject dir now createDefaultPlugins files st0) = Inr r \<and>
      (\<forall>e \<in> set (endpoints r). method e \<in> set HTTP_METHODS)) \<and>
   fst (extractExpressRoutes ''app.js'' express_patch_sample initial_state) = Inr [] \<and>
   fst (extractFastifyRoutes ''app.js'' fastify_patch_sample initial_state) = Inr [] \<and>
   fst (extractNestRoutes ''a.ts'' nest_patch_sample initial_state) = Inr []"
proof (intro conjI ballI)
  fix p :: "RegexState FrameworkPlugin"
  assume "p \<in> set createDefaultPlugins"
  from builtin_extract_result [OF this, of f c st]
  show "\<exists>eps st'. plugin_extract p f c st = (Inr eps, st') \<and>
          (\<forall>e \<in> set eps. method e \<in> set HTTP_METHODS)"
    using built_from_method by blast
next
  show "\<exists>r. fst (scanBackendProject dir now createDefaultPlugins files st0) = Inr r \<and>
      (\<forall>e \<in> set (endpoints r). method e \<in> set HTTP_METHODS)"
    by (rule scan_builtin_all) (rule built_from_method)
qed (rule t_c6a t_c6b t_c6c)+

theorem builtin_methods_supported_witness:
  "createDefaultPlugins ! 2 \<in> set createDefaultPlugins \<and>
   plugin_extract (createDefaultPlugins ! 2) = extractNestRoutes \<and>
   map method (case fst (extractNestRoutes ''a.ts'' nest_plain_sample initial_state) of
                 Inl err \<Rightarrow> [] | Inr eps \<Rightarrow> eps) = [''GET''] \<and>
   (\<exists>eps st'. extractNestRoutes ''a.ts'' nest_plain_sample initial_state = (Inr eps, st') \<and>
      list_all (\<lambda>e. method e \<in> set HTTP_METHODS) eps)"
proof -
  have p: "createDefaultPlugins ! 2 \<in> set createDefaultPlugins"
    and x: "plugin_extract (createDefaultPlugins ! 2) = extractNestRoutes"
    by (simp_all add: createDefaultPlugins_def)
  from builtin_methods_supported [of "''a.ts''" nest_plain_sample initial_state] p x
  have "\<exists>eps st'. extractNestRoutes ''a.ts'' nest_plain_sample initial_state = (Inr eps, st') \<and>
          (\<forall>e \<in> set eps. method e \<in> set HTTP_METHODS)"
    by (metis (no_types, lifting))
  with p x t_plain show ?thesis by (simp add: list_all_iff)
qed

text \<open>
  Claim C7. Each built-in extraction, for every file, content and state of the module,
  returns one endpoint for each declaration it accepts, in their order. Each of these
  endpoints has \<open>requestBodySchema\<close> and \<open>response\<close> set and is printed with both
  members, null where the value is null. Where the locator finds no documentation block
  before the declaration (there may be one after it), the endpoint has no description, no
  parameters and null for both; where the block before it has no request-body annotation
  the schema is null, and where it has no response annotation the response is null. A
  scan with the built-in plugins returns, and every endpoint object of the snapshot
  written from its result has both members. In the example a block follows the
  declaration.
\<close>

theorem field_presence:
  "(\<forall>(extract, re, lastIndex, needs_path) \<in>
       set [(extractExpressRoutes, ROUTE_METHOD_REGEX, ROUTE_METHOD_lastIndex, True),
            (extractFastifyRoutes, FASTIFY_ROUTE_REGEX, FASTIFY_ROUTE_lastIndex, True),
            (extractNestRoutes, NEST_DECORATOR_REGEX, NEST_DECORATOR_lastIndex, False)].
      \<exists>eps st'. extract f c st = (Inr eps, st') \<and>
        list_all2 (\<lambda>e m.
            map_option toUpperCase (group m 1) = Some (method e) \<and>
            (\<exists>v w. requestBodySchema e = Some v \<and> response e = Some w \<and>
               map_of (endpoint_members e) (jstr ''requestBodySchema'') = Some v \<and>
               map_of (endpoint_members e) (jstr ''response'') = Some (response_json w)) \<and>
            (case extractDocBlock c (index m) of
               None \<Rightarrow>
                 description e = None \<and> parameters e = [] \<and>
                 requestBodySchema e = Some JNull \<and> response e = Some None \<and>
                 map_of (endpoint_members e) (jstr ''description'') = None \<and>
                 map_of (endpoint_members e) (jstr ''requestBodySchema'') = Some JNull \<and>
                 map_of (endpoint_members e) (jstr ''response'') = Some JNull
             | Some b \<Rightarrow>
                 (\<not> String_includes b ''@requestBody'' \<longrightarrow> requestBodySchema e = Some JNull) \<and>
                 (\<not> String_includes b ''@responseExample'' \<longrightarrow> response e = Some None)))
          eps (declarations re needs_path c (lastIndex st))) \<and>
   (\<exists>r. fst (scanBackendProject dir now createDefaultPlugins files st0) = Inr r \<and>
      snd (writeOutputJson (scan_objects r) options disk) = Some (scan_objects r) \<and>
      (\<forall>obj \<in> set (endpoints (scan_objects r)).
         \<exists>v w. map_of obj (jstr ''requestBodySchema'') = Some v \<and>
               map_of obj (jstr ''response'') = Some w)) \<and>
   map_sum id (\<lambda>r. endpoints (scan_objects r))
     (fst (scanBackendProject dir now createDefaultPlugins
        [(''a.ts'', nest_later_block_sample)] initial_state))
   = Inr [[(jstr ''method'', JString (jstr ''GET'')), (jstr ''path'', JString (jstr ''/a'')),
           (jstr ''parameters'', JArray []), (jstr ''requestBodySchema'', JNull),
           (jstr ''response'', JNull), (jstr ''framework'', JString (jstr ''nestjs'')),
           (jstr ''sourceFile'', JString (jstr ''a.ts''))]]"
  (is "(\<forall>x \<in> set _. ?Q x) \<and> ?B \<and> ?C")
proof (intro conjI)
  let ?P = "\<lambda>e m.
            map_option toUpperCase (group m 1) = Some (method e) \<and>
            (\<exists>v w. requestBodySchema e = Some v \<and> response e = Some w \<and>
               map_of (endpoint_members e) (jstr ''requestBodySchema'') = Some v \<and>
               map_of (endpoint_members e) (jstr ''response'') = Some (response_json w)) \<and>
            (case extractDocBlock c (index m) of
               None \<Rightarrow>
                 description e = None \<and> parameters e = [] \<and>
                 requestBodySchema e = Some JNull \<and> response e = Some None \<and>
                 map_of (endpoint_members e) (jstr ''description'') = None \<and>
                 map_of (endpoint_members e) (jstr ''requestBodySchema'') = Some JNull \<and>
                 map_of (endpoint_members e) (jstr ''response'') = Some JNull
             | Some b \<Rightarrow>
                 (\<not> String_includes b ''@requestBody'' \<longrightarrow> requestBodySchema e = Some JNull) \<and>
                 (\<not> String_includes b ''@responseExample'' \<longrightarrow> response e = Some None))"
  have mono: "list_all2 ?P res ds" if "list_all2 (built_for c) res ds" for res ds
    using that by (rule list_all2_mono) (rule built_for_fields)
  have e: "\<exists>eps st'. extractExpressRoutes f c st = (Inr eps, st') \<and>
             list_all2 ?P eps (declarations ROUTE_METHOD_REGEX True c (ROUTE_METHOD_lastIndex st))"
    using extractExpressRoutes_loop_declarations [of f c "[]" st] mono
    unfolding extractExpressRoutes_def append_Nil by blast
  have f: "\<exists>eps st'. extractFastifyRoutes f c st = (Inr eps, st') \<and>
             list_all2 ?P eps (declarations FASTIFY_ROUTE_REGEX True c (FASTIFY_ROUTE_lastIndex st))"
    using extractFastifyRoutes_loop_declarations [of f c "[]" st] mono
    unfolding extractFastifyRoutes_def append_Nil by blast
  have n: "\<exists>eps st'. extractNestRoutes f c st = (Inr eps, st') \<and>
             list_all2 ?P eps (declarations NEST_DECORATOR_REGEX False c (NEST_DECORATOR_lastIndex st))"
    using extractNestRoutes_loop_declarations [of f c "[]" st] mono
    unfolding extractNestRoutes_def append_Nil by blast
  show "\<forall>x \<in> set [(extractExpressRoutes, ROUTE_METHOD_REGEX, ROUTE_METHOD_lastIndex, True),
            (extractFastifyRoutes, FASTIFY_ROUTE_REGEX, FASTIFY_ROUTE_lastIndex, True),
            (extractNestRoutes, NEST_DECORATOR_REGEX, NEST_DECORATOR_lastIndex, False)]. ?Q x"
    unfolding list.set ball_simps(7) ball_empty prod.case simp_thms
    using e f n by (intro conjI)
  from builtin_objects [of dir now files st0] show ?B
    by (auto simp: writeOutputJson_snapshot)
  show ?C by (rule t_later)
qed

theorem field_presence_witness:
  "String_includes nest_later_block_sample ''/**'' \<and>
   map (\<lambda>m. (index m, group m 1)) (declarations NEST_DECORATOR_REGEX False nest_later_block_sample
     (NEST_DECORATOR_lastIndex initial_state)) = [(14, Some ''Get'')] \<and>
   extractDocBlock nest_later_block_sample 14 = None \<and>
   (\<exists>e st'. extractNestRoutes ''a.ts'' nest_later_block_sample initial_state = (Inr [e], st') \<and>
      method e = ''GET'' \<and> description e = None \<and> parameters e = [] \<and>
      requestBodySchema e = Some JNull \<and> response e = Some None \<and>
      map_of (endpoint_members e) (jstr ''description'') = None \<and>
      map_of (endpoint_members e) (jstr ''requestBodySchema'') = Some JNull \<and>
      map_of (endpoint_members e) (jstr ''response'') = Some JNull) \<and>
   map (\<lambda>m. (index m, group m 1)) (declarations NEST_DECORATOR_REGEX False nest_plain_block_sample
     (NEST_DECORATOR_lastIndex initial_state)) = [(27, Some ''Get'')] \<and>
   extractDocBlock nest_plain_block_sample 27 = Some ''/** Plain */'' \<and>
   \<not> String_includes ''/** Plain */'' ''@requestBody'' \<and>
   \<not> String_includes ''/** Plain */'' ''@responseExample'' \<and>
   (\<exists>e st'. extractNestRoutes ''a.ts'' nest_plain_block_sample initial_state = (Inr [e], st') \<and>
      method e = ''GET'' \<and> requestBodySchema e = Some JNull \<and> response e = Some None \<and>
      map_of (endpoint_members e) (jstr ''requestBodySchema'') = Some JNull \<and>
      map_of (endpoint_members e) (jstr ''response'') = Some JNull)"
proof -
  have inc: "String_includes nest_later_block_sample ''/**''"
    "\<not> String_includes ''/** Plain */'' ''@requestBody''"
    "\<not> String_includes ''/** Plain */'' ''@responseExample''"
    by (simp_all add: nest_later_block_sample_def nl_def sq_def)
  have later: "\<exists>e st'. extractNestRoutes ''a.ts'' nest_later_block_sample initial_state = (Inr [e], st') \<and>
      method e = ''GET'' \<and> description e = None \<and> parameters e = [] \<and>
      requestBodySchema e = Some JNull \<and> response e = Some None \<and>
      map_of (endpoint_members e) (jstr ''description'') = None \<and>
      map_of (endpoint_members e) (jstr ''requestBodySchema'') = Some JNull \<and>
      map_of (endpoint_members e) (jstr ''response'') = Some JNull"
  proof -
    note fp = field_presence [of "''a.ts''" nest_later_block_sample initial_state "''/p''" "''t''"
        "[]" initial_state "\<lparr>options_rootDir = ''/p'', incremental = Some True\<rparr>" None,
        unfolded list.set ball_simps(7) ball_empty prod.case simp_thms]
    from t_later_declarations(1) obtain m where
      ds: "declarations NEST_DECORATOR_REGEX False nest_later_block_sample
             (NEST_DECORATOR_lastIndex initial_state) = [m]"
      and i: "index m = 14" and g: "group m 1 = Some ''Get''"
      by (rule singleton_declaration)
    from fp [unfolded ds] obtain eps st' where
      x: "extractNestRoutes ''a.ts'' nest_later_block_sample initial_state = (Inr eps, st')"
      and l: "list_all2 (\<lambda>e m.
            map_option toUpperCase (group m 1) = Some (method e) \<and>
            (\<exists>v w. requestBodySchema e = Some v \<and> response e = Some w \<and>
               map_of (endpoint_members e) (jstr ''requestBodySchema'') = Some v \<and>
               map_of (endpoint_members e) (jstr ''response'') = Some (response_json w)) \<and>
            (case extractDocBlock nest_later_block_sample (index m) of
               None \<Rightarrow>
                 description e = None \<and> parameters e = [] \<and>
                 requestBodySchema e = Some JNull \<and> response e = Some None \<and>
                 map_of (endpoint_members e) (jstr ''description'') = None \<and>
                 map_of (endpoint_members e) (jstr ''requestBodySchema'') = Some JNull \<and>
                 map_of (endpoint_members e) (jstr ''response'') = Some JNull
             | Some b \<Rightarrow>
                 (\<not> String_includes b ''@requestBody'' \<longrightarrow> requestBodySchema e = Some JNull) \<and>
                 (\<not> String_includes b ''@responseExample'' \<longrightarrow> response e = Some None)))
          eps [m]"
      by blast
    from l obtain e where eps: "eps = [e]"
      and p: "map_option toUpperCase (group m 1) = Some (method e)"
      and d: "case extractDocBlock nest_later_block_sample (index m) of
               None \<Rightarrow>
                 description e = None \<and> parameters e = [] \<and>
                 requestBodySchema e = Some JNull \<and> response e = Some None \<and>
                 map_of (endpoint_members e) (jstr ''description'') = None \<and>
                 map_of (endpoint_members e) (jstr ''requestBodySchema'') = Some JNull \<and>
                 map_of (endpoint_members e) (jstr ''response'') = Some JNull
             | Some b \<Rightarrow>
                 (\<not> String_includes b ''@requestBody'' \<longrightarrow> requestBodySchema e = Some JNull) \<and>
                 (\<not> String_includes b ''@responseExample'' \<longrightarrow> response e = Some None)"
      by (auto simp: list_all2_Cons2)
    from p g have "method e = ''GET''" by (simp add: upper_Get)
    with x eps d show ?thesis
      by (simp add: i t_later_block(1))
  qed
  have plain: "\<exists>e st'. extractNestRoutes ''a.ts'' nest_plain_block_sample initial_state = (Inr [e], st') \<and>
      method e = ''GET'' \<and> requestBodySchema e = Some JNull \<and> response e = Some None \<and>
      map_of (endpoint_members e) (jstr ''requestBodySchema'') = Some JNull \<and>
      map_of (endpoint_members e) (jstr ''response'') = Some JNull"
  proof -
    note fp = field_presence [of "''a.ts''" nest_plain_block_sample initial_state "''/p''" "''t''"
        "[]" initial_state "\<lparr>options_rootDir = ''/p'', incremental = Some True\<rparr>" None,
        unfolded list.set ball_simps(7) ball_empty prod.case simp_thms]
    from t_later_declarations(2) obtain m where
      ds: "declarations NEST_DECORATOR_REGEX False nest_plain_block_sample
             (NEST_DECORATOR_lastIndex initial_state) = [m]"
      and i: "index m = 27" and g: "group m 1 = Some ''Get''"
      by (rule singleton_declaration)
    from fp [unfolded ds] obtain eps st' where
      x: "extractNestRoutes ''a.ts'' nest_plain_block_sample initial_state = (Inr eps, st')"
      and l: "list_all2 (\<lambda>e m.
            map_option toUpperCase (group m 1) = Some (method e) \<and>
            (\<exists>v w. requestBodySchema e = Some v \<and> response e = Some w \<and>
               map_of (endpoint_members e) (jstr ''requestBodySchema'') = Some v \<and>
               map_of (endpoint_members e) (jstr ''response'') = Some (response_json w)) \<and>
            (case extractDocBlock nest_plain_block_sample (index m) of
               None \<Rightarrow>
                 description e = None \<and> parameters e = [] \<and>
                 requestBodySchema e = Some JNull \<and> response e = Some None \<and>
                 map_of (endpoint_members e) (jstr ''description'') = None \<and>
                 map_of (endpoint_members e) (jstr ''requestBodySchema'') = Some JNull \<and>
                 map_of (endpoint_members e) (jstr ''response'') = Some JNull
             | Some b \<Rightarrow>
                 (\<not> String_includes b ''@requestBody'' \<longrightarrow> requestBodySchema e = Some JNull) \<and>
                 (\<not> String_includes b ''@responseExample'' \<longrightarrow> response e = Some None)))
          eps [m]"
      by blast
    from l obtain e where eps: "eps = [e]"
      and p: "map_option toUpperCase (group m 1) = Some (method e)"
      and v: "\<exists>v w. requestBodySchema e = Some v \<and> response e = Some w \<and>
               map_of (endpoint_members e) (jstr ''requestBodySchema'') = Some v \<and>
               map_of (endpoint_members e) (jstr ''response'') = Some (response_json w)"
      and d: "case extractDocBlock nest_plain_block_sample (index m) of
               None \<Rightarrow>
                 description e = None \<and> parameters e = [] \<and>
                 requestBodySchema e = Some JNull \<and> response e = Some None \<and>
                 map_of (endpoint_members e) (jstr ''description'') = None \<and>
                 map_of (endpoint_members e) (jstr ''requestBodySchema'') = Some JNull \<and>
                 map_of (endpoint_members e) (jstr ''response'') = Some JNull
             | Some b \<Rightarrow>
                 (\<not> String_includes b ''@requestBody'' \<longrightarrow> requestBodySchema e = Some JNull) \<and>
                 (\<not> String_includes b ''@responseExample'' \<longrightarrow> response e = Some None)"
      by (auto simp: list_all2_Cons2)
    from p g have "method e = ''GET''" by (simp add: upper_Get)
    moreover from d inc(2,3) have "requestBodySchema e = Some JNull" "response e = Some None"
      by (simp_all add: i t_later_block(2))
    moreover from this v have "map_of (endpoint_members e) (jstr ''requestBodySchema'') = Some JNull"
      "map_of (endpoint_members e) (jstr ''response'') = Some JNull"
      by (auto simp: response_json_def)
    ultimately show ?thesis using x eps by simp
  qed
  from inc t_later_declarations t_later_block later plain show ?thesis by (intro conjI)
qed

text \<open>
  Claim C8 asks that a per-verb decorator without a path argument gives an endpoint with
  path \<open>/\<close>. The code does not: \<open>NEST_DECORATOR_REGEX\<close> requires an opening quote
  after the parenthesis, so \<open>@Get()\<close> is not matched at all and no endpoint is built;
  the default \<open>routePath || "/"\<close> is only reached for an empty quoted path.
\<close>

theorem nest_absent_path_not_extracted:
  "fst (scanBackendProject dir now createDefaultPlugins [(''a.ts'', nest_no_path_sample)] initial_state)
     = Inr \<lparr>scannedAt = Some now, rootDir = Some dir, endpoints = [], warnings = Some []\<rparr> \<and>
   map_sum id (\<lambda>r. map path (endpoints r))
     (fst (scanBackendProject dir now createDefaultPlugins
        [(''a.ts'', nest_empty_path_sample)] initial_state)) = Inr [''/'']"
  using t_c8a t_c8b by (rule conjI)

text \<open>
  Claim C9 asks that the text of a request-body annotation that is not JSON is kept as
  \<open>{schema: text}\<close> and never dropped, and that the text of a response annotation that
  is not JSON is kept as the example. The code does not, from the second documented
  declaration of a scan on: \<open>parseDocBlock\<close> calls \<open>exec\<close> once on the global
  \<open>REQUEST_SCHEMA_REGEX\<close> and once on the global \<open>RESPONSE_EXAMPLE_REGEX\<close>, which
  leaves \<open>lastIndex\<close> behind the annotation, and the next block is searched from there.
  In one scan of a file with two declarations, each after the block
  \<open>/** @requestBody {oops */\<close>, the first schema is \<open>{schema: "{oops"}\<close> and the second
  is null; with the block \<open>/** @responseExample 500 <html> */\<close> the first response has
  the example \<open><html>\<close> and the second response is null.
\<close>

theorem malformed_annotation_dropped:
  "map_sum id (\<lambda>r. map (\<lambda>e. (method e, path e, requestBodySchema e)) (endpoints r))
     (fst (scanBackendProject dir now createDefaultPlugins
        [(''a.ts'', nest_two_schemas_sample)] initial_state))
     = Inr [(''GET'', ''/a'', Some (JObject [(jstr ''schema'', JString (jstr ''{oops''))])),
            (''POST'', ''/b'', Some JNull)] \<and>
   map_sum id (\<lambda>r. map (\<lambda>e. (method e, path e, response e)) (endpoints r))
     (fst (scanBackendProject dir now createDefaultPlugins
        [(''a.ts'', nest_two_examples_sample)] initial_state))
     = Inr [(''GET'', ''/a'', Some (Some \<lparr>status = Num 500, example = JString (jstr ''<html>'')\<rparr>)),
            (''POST'', ''/b'', Some None)]"
  using t_c9a t_c9b by (rule conjI)

text \<open>
  Claim C10. \<open>detectParameterType\<close> classifies a raw type text by a fixed keyword
  priority: the result is the class of the first entry of \<open>priority_table\<close> one of whose
  keywords occurs in the lower-cased text, and \<open>unknown\<close> when there is none. So
  \<open>Array<string>\<close> is a string, not an array.
\<close>

theorem detectParameterType_priority:
  "detectParameterType raw = first_keyword_class raw \<and>
   detectParameterType ''Array<string>'' = TString"
proof
  show "detectParameterType raw = first_keyword_class raw"
    by (simp add: detectParameterType_def first_keyword_class_def priority_table_def Let_def)
  show "detectParameterType ''Array<string>'' = TString"
    by (simp add: detectParameterType_def toLowerCase_def ascii_letter_def latin_letter_def)
qed

end
